theory Spec2Isabelle
  imports Complex_Main "HOL-Library.Word"
begin

section \<open>Data model\<close>

text \<open>
  A frame is the Go struct \<^verbatim>\<open>Frame{Data []byte; Width, Height int}\<close>.  Bytes are 8-bit
  words.  A \<^verbatim>\<open>nil\<close> slice returned as the failure value is \<open>None\<close>.
\<close>

type_synonym byte = "8 word"

record Frame =
  Data :: "byte list"
  Width :: int
  Height :: int

text \<open>
  Go's \<^verbatim>\<open>int\<close> has 64 bits on the platforms of this library (\<^verbatim>\<open>amd64\<close>, \<^verbatim>\<open>arm64\<close>), and its
  arithmetic wraps around.  An \<^verbatim>\<open>int\<close> is modelled by the integer it denotes, and \<open>i64\<close>
  brings the result of an arithmetic expression back into the range
  \<open>-2^63 .. 2^63 - 1\<close>.  An expression built from \<^verbatim>\<open>+\<close>, \<^verbatim>\<open>-\<close> and \<^verbatim>\<open>*\<close> is reduced once,
  at its end: the reduction commutes with these operations (lemma \<open>i64_arith\<close> below).
  A loop counter is increased without reduction: the condition of the loop keeps it
  below a value of type \<^verbatim>\<open>int\<close>, so that a step of one cannot wrap around, and a step of
  two or three only for a bound within two of \<open>2^63\<close>.  The length of a slice is not
  reduced.
\<close>

definition i64 :: "int \<Rightarrow> int" where
  "i64 n = (n + 2 ^ 63) mod 2 ^ 64 - 2 ^ 63"

text \<open>
  A run-time panic of Go (index out of range, slice bounds out of range, a length
  given to \<^verbatim>\<open>make\<close> that is out of range) is a value of the model, so that the absence
  of out-of-range accesses is a statement about the functions themselves.
\<close>

datatype 'a res = Panic | Ret 'a

fun bind_res :: "'a res \<Rightarrow> ('a \<Rightarrow> 'b res) \<Rightarrow> 'b res" where
  "bind_res Panic f = Panic"
| "bind_res (Ret x) f = f x"

definition len :: "'a list \<Rightarrow> int" where
  "len xs = int (length xs)"

text \<open>\<^verbatim>\<open>xs[i]\<close> as an expression.\<close>

definition idx :: "'a list \<Rightarrow> int \<Rightarrow> 'a res" where
  "idx xs i = (if 0 \<le> i \<and> i < len xs then Ret (xs ! nat i) else Panic)"

text \<open>\<^verbatim>\<open>xs[i] = v\<close>.\<close>

definition store :: "'a list \<Rightarrow> int \<Rightarrow> 'a \<Rightarrow> 'a list res" where
  "store xs i v = (if 0 \<le> i \<and> i < len xs then Ret (xs[nat i := v]) else Panic)"

text \<open>
  \<^verbatim>\<open>xs[lo:hi]\<close>.  Go admits \<open>hi\<close> up to the capacity; the model admits it up to the
  length only, which panics on more inputs than Go does.
\<close>

definition slice :: "'a list \<Rightarrow> int \<Rightarrow> int \<Rightarrow> 'a list res" where
  "slice xs lo hi =
     (if 0 \<le> lo \<and> lo \<le> hi \<and> hi \<le> len xs
      then Ret (take (nat (hi - lo)) (drop (nat lo) xs)) else Panic)"

text \<open>
  \<^verbatim>\<open>make([]byte, n)\<close> panics for a negative length and for a length above the largest
  allocation of the run-time system, which is \<open>2^48\<close> bytes on \<^verbatim>\<open>linux/amd64\<close> and
  \<^verbatim>\<open>linux/arm64\<close>.  An allocation within this limit that fails for lack of memory ends
  the program; it is outside the model.
\<close>

definition maxAlloc :: int where
  "maxAlloc = 2 ^ 48"

definition make_bytes :: "int \<Rightarrow> byte list res" where
  "make_bytes n = (if n < 0 \<or> n > maxAlloc then Panic else Ret (replicate (nat n) 0))"

text \<open>Three consecutive stores \<^verbatim>\<open>dst[di], dst[di+1], dst[di+2] = a, b, c\<close>.\<close>

definition store3 :: "'a list \<Rightarrow> int \<Rightarrow> 'a \<Rightarrow> 'a \<Rightarrow> 'a \<Rightarrow> 'a list res" where
  "store3 dst di a b c =
     bind_res (store dst di a) (\<lambda>d1.
     bind_res (store d1 (i64 (di + 1)) b) (\<lambda>d2.
     store d2 (i64 (di + 2)) c))"

text \<open>
  The copy of one pixel: \<^verbatim>\<open>dst[di] = src[si]; dst[di+1] = src[si+1]; dst[di+2] = src[si+2]\<close>.
\<close>

definition copy3 :: "'a list \<Rightarrow> int \<Rightarrow> 'a list \<Rightarrow> int \<Rightarrow> 'a list res" where
  "copy3 src si dst di =
     bind_res (idx src si) (\<lambda>a.
     bind_res (store dst di a) (\<lambda>d1.
     bind_res (idx src (i64 (si + 1))) (\<lambda>b.
     bind_res (store d1 (i64 (di + 1)) b) (\<lambda>d2.
     bind_res (idx src (i64 (si + 2))) (\<lambda>c.
     store d2 (i64 (di + 2)) c)))))"

text \<open>
  Go's integer division truncates towards zero; its \<^verbatim>\<open>>>\<close> on a signed integer is the
  arithmetic shift, which rounds towards minus infinity.  No divisor of the source is
  zero: each one is a constant, or positive by an earlier guard, or
  \<^verbatim>\<open>height + height/2\<close> for a positive \<^verbatim>\<open>height\<close>, which does not wrap around to zero.
\<close>

definition quo :: "int \<Rightarrow> int \<Rightarrow> int" where
  "quo a b = (if (a < 0) = (b < 0) then \<bar>a\<bar> div \<bar>b\<bar> else - (\<bar>a\<bar> div \<bar>b\<bar>))"

definition sar :: "int \<Rightarrow> nat \<Rightarrow> int" where
  "sar x n = x div 2 ^ n"

section \<open>The pixel format normalizer (Linux backend)\<close>

definition v4l2PixFmtRGB24 :: "32 word" where "v4l2PixFmtRGB24 = 0x33424752"
definition v4l2PixFmtYUYV :: "32 word" where "v4l2PixFmtYUYV = 0x56595559"
definition v4l2PixFmtNV12 :: "32 word" where "v4l2PixFmtNV12 = 0x3231564E"
definition v4l2PixFmtYUV24 :: "32 word" where "v4l2PixFmtYUV24 = 0x33565559"

definition cifWidth :: int where "cifWidth = 352"
definition cifHeight :: int where "cifHeight = 288"

definition clampToByte :: "int \<Rightarrow> byte" where
  "clampToByte v = (if v < 0 then 0 else if v > 255 then 255 else word_of_int v)"

subsection \<open>The row loop of the packed formats\<close>

text \<open>
  The three packed formats walk the rows in the same way: the row \<open>y\<close> is the slice
  \<^verbatim>\<open>src[y*effectiveStride : y*effectiveStride+rowBytes]\<close>, and \<^verbatim>\<open>return nil\<close> when it ends
  beyond the buffer.  \<open>cols\<close> is the loop over \<open>x\<close> of the format; it gives \<open>None\<close>
  when it ends in \<^verbatim>\<open>return nil\<close>.
\<close>

function packed_rows ::
  "(byte list \<Rightarrow> int \<Rightarrow> byte list \<Rightarrow> byte list option res)
     \<Rightarrow> byte list \<Rightarrow> int \<Rightarrow> int \<Rightarrow> int \<Rightarrow> int \<Rightarrow> byte list \<Rightarrow> byte list option res" where
  "packed_rows cols src height effectiveStride rowBytes y dst =
     (if y < height then
        (let inStart = i64 (y * effectiveStride); inEnd = i64 (inStart + rowBytes) in
         if inEnd > len src then Ret None
         else
           (case bind_res (slice src inStart inEnd) (\<lambda>row. cols row y dst) of
              Panic \<Rightarrow> Panic
            | Ret None \<Rightarrow> Ret None
            | Ret (Some dst') \<Rightarrow> packed_rows cols src height effectiveStride rowBytes (y + 1) dst'))
      else Ret (Some dst))"
  by pat_completeness auto
termination
  by (relation "measure (\<lambda>(cols, src, height, es, rowBytes, y, dst). nat (height - y))") auto

subsection \<open>Packed 4:4:4 (\<^verbatim>\<open>YUV3\<close>)\<close>

text \<open>The inner loop over \<open>x\<close>; its \<^verbatim>\<open>break\<close> leaves the loop with the buffer as it is.\<close>

function yuv24_cols :: "int \<Rightarrow> byte list \<Rightarrow> int \<Rightarrow> int \<Rightarrow> byte list \<Rightarrow> byte list option res" where
  "yuv24_cols width row y x dst =
     (if x < width then
        (let si = i64 (x * 3); di = i64 ((y * width + x) * 3) in
         if i64 (si + 2) \<ge> len row \<or> i64 (di + 2) \<ge> len dst then Ret (Some dst)
         else
           (case copy3 row si dst di of
              Panic \<Rightarrow> Panic
            | Ret dst' \<Rightarrow> yuv24_cols width row y (x + 1) dst'))
      else Ret (Some dst))"
  by pat_completeness auto
termination
  by (relation "measure (\<lambda>(width, row, y, x, dst). nat (width - x))") auto

subsection \<open>Biplanar 4:2:0 (\<^verbatim>\<open>NV12\<close>)\<close>

function nv12_cols ::
  "byte list \<Rightarrow> byte list \<Rightarrow> int \<Rightarrow> int \<Rightarrow> int \<Rightarrow> int \<Rightarrow> byte list \<Rightarrow> byte list option res" where
  "nv12_cols yPlane uvPlane width effectiveStride y x dst =
     (if x < width then
        (let yIdx = i64 (y * effectiveStride + x) in
         if yIdx \<ge> len yPlane then Ret None
         else
           (case idx yPlane yIdx of
              Panic \<Rightarrow> Panic
            | Ret Y \<Rightarrow>
                let uvY = quo y 2; uvX = quo x 2;
                    uvIdx = i64 (uvY * effectiveStride + uvX * 2) in
                if i64 (uvIdx + 1) \<ge> len uvPlane then Ret None
                else
                  (case bind_res (idx uvPlane uvIdx) (\<lambda>Cb.
                        bind_res (idx uvPlane (i64 (uvIdx + 1))) (\<lambda>Cr. Ret (Cb, Cr))) of
                     Panic \<Rightarrow> Panic
                   | Ret (Cb, Cr) \<Rightarrow>
                       let di = i64 ((y * width + x) * 3) in
                       if i64 (di + 2) \<ge> len dst then Ret None
                       else
                         (case store3 dst di Y Cb Cr of
                            Panic \<Rightarrow> Panic
                          | Ret dst' \<Rightarrow>
                              nv12_cols yPlane uvPlane width effectiveStride y (x + 1) dst'))))
      else Ret (Some dst))"
  by pat_completeness auto
termination
  by (relation "measure (\<lambda>(yPlane, uvPlane, width, es, y, x, dst). nat (width - x))") auto

function nv12_rows ::
  "byte list \<Rightarrow> byte list \<Rightarrow> int \<Rightarrow> int \<Rightarrow> int \<Rightarrow> int \<Rightarrow> byte list \<Rightarrow> byte list option res" where
  "nv12_rows yPlane uvPlane width height effectiveStride y dst =
     (if y < height then
        (case nv12_cols yPlane uvPlane width effectiveStride y 0 dst of
           Panic \<Rightarrow> Panic
         | Ret None \<Rightarrow> Ret None
         | Ret (Some dst') \<Rightarrow> nv12_rows yPlane uvPlane width height effectiveStride (y + 1) dst')
      else Ret (Some dst))"
  by pat_completeness auto
termination
  by (relation "measure (\<lambda>(yPlane, uvPlane, width, height, es, y, dst). nat (height - y))") auto

subsection \<open>Packed 4:2:2, luma first (\<^verbatim>\<open>YUYV\<close>)\<close>

function yuyv_cols :: "int \<Rightarrow> byte list \<Rightarrow> int \<Rightarrow> int \<Rightarrow> byte list \<Rightarrow> byte list option res" where
  "yuyv_cols width row y x dst =
     (if x < width then
        (let si = i64 (x * 2) in
         if i64 (si + 3) \<ge> len row then Ret (Some dst)
         else
           (case bind_res (idx row si) (\<lambda>Y0.
                 bind_res (idx row (i64 (si + 1))) (\<lambda>U.
                 bind_res (idx row (i64 (si + 2))) (\<lambda>Y1.
                 bind_res (idx row (i64 (si + 3))) (\<lambda>V.
                   let di0 = i64 ((y * width + x) * 3) in
                   bind_res (if i64 (di0 + 2) < len dst then store3 dst di0 Y0 U V
                             else Ret dst) (\<lambda>d1.
                   if i64 (x + 1) < width then
                     (let di1 = i64 ((y * width + x + 1) * 3) in
                      if i64 (di1 + 2) < len d1 then store3 d1 di1 Y1 U V else Ret d1)
                   else Ret d1))))) of
              Panic \<Rightarrow> Panic
            | Ret dst' \<Rightarrow> yuyv_cols width row y (x + 2) dst'))
      else Ret (Some dst))"
  by pat_completeness auto
termination
  by (relation "measure (\<lambda>(width, row, y, x, dst). nat (width - x))") auto

subsection \<open>24-bit packed colour (\<^verbatim>\<open>RGB3\<close>)\<close>

text \<open>
  The inner loop has a \<^verbatim>\<open>break\<close> (result \<open>Some\<close>, the loop over the rows goes on) and a
  \<^verbatim>\<open>return nil\<close> (result \<open>None\<close>).
\<close>

function rgb24_cols :: "int \<Rightarrow> byte list \<Rightarrow> int \<Rightarrow> int \<Rightarrow> byte list \<Rightarrow> byte list option res" where
  "rgb24_cols width row y x dst =
     (if x < width then
        (let si = i64 (x * 3) in
         if i64 (si + 2) \<ge> len row then Ret (Some dst)
         else
           (case bind_res (idx row si) (\<lambda>r.
                 bind_res (idx row (i64 (si + 1))) (\<lambda>g.
                 bind_res (idx row (i64 (si + 2))) (\<lambda>b. Ret (uint r, uint g, uint b)))) of
              Panic \<Rightarrow> Panic
            | Ret (R, G, B) \<Rightarrow>
                let Y = i64 (sar (i64 (66 * R + 129 * G + 25 * B + 128)) 8 + 16);
                    Cb = i64 (sar (i64 (- 38 * R - 74 * G + 112 * B + 128)) 8 + 128);
                    Cr = i64 (sar (i64 (112 * R - 94 * G - 18 * B + 128)) 8 + 128);
                    di = i64 ((y * width + x) * 3) in
                if i64 (di + 2) \<ge> len dst then Ret None
                else
                  (case store3 dst di (clampToByte Y) (clampToByte Cb) (clampToByte Cr) of
                     Panic \<Rightarrow> Panic
                   | Ret dst' \<Rightarrow> rgb24_cols width row y (x + 1) dst')))
      else Ret (Some dst))"
  by pat_completeness auto
termination
  by (relation "measure (\<lambda>(width, row, y, x, dst). nat (width - x))") auto

subsection \<open>The dispatch\<close>

text \<open>
  The stride adjustment shared by the three packed formats: a stride that is not
  positive is replaced by the row size, and a stride too large for the buffer by the
  largest one that fits, unless that is less than a row (\<open>None\<close>: \<^verbatim>\<open>return nil\<close>).
\<close>

definition packedStride :: "byte list \<Rightarrow> int \<Rightarrow> int \<Rightarrow> int \<Rightarrow> int option" where
  "packedStride src height stride rowBytes =
     (let effectiveStride = (if stride \<le> 0 then rowBytes else stride) in
      if height > 0 \<and> i64 (effectiveStride * height) > len src then
        (let effectiveStride' = quo (len src) height in
         if effectiveStride' < rowBytes then None else Some effectiveStride')
      else Some effectiveStride)"

text \<open>
  The biplanar case: its stride adjustment counts the lines of both planes, and the
  buffer is then cut into the luma plane and the chroma plane.
\<close>

definition nv12Stride :: "byte list \<Rightarrow> int \<Rightarrow> int \<Rightarrow> int \<Rightarrow> int option" where
  "nv12Stride src height stride rowBytesY =
     (let effectiveStride = (if stride \<le> 0 then rowBytesY else stride);
          totalLines = i64 (height + quo height 2) in
      if i64 (effectiveStride * totalLines) > len src then
        (let effectiveStride' = quo (len src) totalLines in
         if effectiveStride' < rowBytesY then None else Some effectiveStride')
      else Some effectiveStride)"

definition nv12_planes :: "byte list \<Rightarrow> int \<Rightarrow> int \<Rightarrow> int \<Rightarrow> byte list \<Rightarrow> byte list option res" where
  "nv12_planes src width height effectiveStride dst =
     (let yPlaneSize = i64 (effectiveStride * height) in
      if yPlaneSize > len src then Ret None
      else
        bind_res (slice src 0 yPlaneSize) (\<lambda>yPlane.
        bind_res (slice src yPlaneSize (len src)) (\<lambda>uvPlane.
        nv12_rows yPlane uvPlane width height effectiveStride 0 dst)))"

definition convertFrame :: "byte list \<Rightarrow> 32 word \<Rightarrow> int \<Rightarrow> int \<Rightarrow> int \<Rightarrow> byte list option res" where
  "convertFrame src pixFmt width height stride =
     (if width \<le> 0 \<or> height \<le> 0 then Ret None
      else
        let dstSize = i64 (width * height * 3) in
        if dstSize \<le> 0 then Ret None
        else
          bind_res (make_bytes dstSize) (\<lambda>dst.
          if pixFmt = v4l2PixFmtYUV24 then
            (let rowBytes = i64 (width * 3) in
             if rowBytes \<le> 0 \<or> len src < rowBytes then Ret None
             else
               case packedStride src height stride rowBytes of
                 None \<Rightarrow> Ret None
               | Some effectiveStride \<Rightarrow>
                   packed_rows (\<lambda>row y d. yuv24_cols width row y 0 d)
                     src height effectiveStride rowBytes 0 dst)
          else if pixFmt = v4l2PixFmtNV12 then
            (let rowBytesY = width in
             if rowBytesY \<le> 0 \<or> len src < rowBytesY then Ret None
             else
               case nv12Stride src height stride rowBytesY of
                 None \<Rightarrow> Ret None
               | Some effectiveStride \<Rightarrow> nv12_planes src width height effectiveStride dst)
          else if pixFmt = v4l2PixFmtYUYV then
            (let rowBytes = i64 (width * 2) in
             if rowBytes \<le> 0 \<or> len src < rowBytes then Ret None
             else
               case packedStride src height stride rowBytes of
                 None \<Rightarrow> Ret None
               | Some effectiveStride \<Rightarrow>
                   packed_rows (\<lambda>row y d. yuyv_cols width row y 0 d)
                     src height effectiveStride rowBytes 0 dst)
          else if pixFmt = v4l2PixFmtRGB24 then
            (let rowBytes = i64 (width * 3) in
             if rowBytes \<le> 0 \<or> len src < rowBytes then Ret None
             else
               case packedStride src height stride rowBytes of
                 None \<Rightarrow> Ret None
               | Some effectiveStride \<Rightarrow>
                   packed_rows (\<lambda>row y d. rgb24_cols width row y 0 d)
                     src height effectiveStride rowBytes 0 dst)
          else Ret None))"

section \<open>Binary64 arithmetic\<close>

text \<open>
  The resampler computes its crop with \<^verbatim>\<open>float64\<close> values.  A \<^verbatim>\<open>float64\<close> is modelled by the
  real number it denotes, and every operation by the exact operation followed by
  \<open>fl\<close>, the rounding to the nearest value with a 53-bit significand, ties to even
  (normal range; the values that occur are quotients and products of frame sizes).
  \<open>fl\<close> first guesses the exponent from the integer logarithm and then normalises the
  significand into \<open>[2^52, 2^53)\<close>.
\<close>

function ilog2 :: "int \<Rightarrow> int" where
  "ilog2 n = (if n \<le> 1 then 0 else 1 + ilog2 (n div 2))"
  by pat_completeness auto
termination
  by (relation "measure nat") auto

function scaleDown :: "real \<Rightarrow> int \<Rightarrow> real \<times> int" where
  "scaleDown m e = (if m \<ge> 2 ^ 53 then scaleDown (m / 2) (e + 1) else (m, e))"
  by pat_completeness auto
termination
proof (relation "measure (\<lambda>(m, e). nat \<lfloor>m\<rfloor>)")
  show "wf (measure (\<lambda>(m::real, e::int). nat \<lfloor>m\<rfloor>))" by simp
next
  fix m :: real and e :: int
  assume h: "2 ^ 53 \<le> m"
  have "1 \<le> m / 2" using h by simp
  then have "\<lfloor>m / 2\<rfloor> < \<lfloor>m\<rfloor>" by linarith
  moreover have "0 < \<lfloor>m\<rfloor>" using h by (simp add: floor_less_iff not_less)
  ultimately show "((m / 2, e + 1), (m, e)) \<in> measure (\<lambda>(m, e). nat \<lfloor>m\<rfloor>)" by simp
qed

function scaleUp :: "real \<Rightarrow> int \<Rightarrow> real \<times> int" where
  "scaleUp m e = (if 0 < m \<and> m < 2 ^ 52 then scaleUp (m * 2) (e - 1) else (m, e))"
  by pat_completeness auto
termination
proof (relation "measure (\<lambda>(m, e). nat \<lceil>2 ^ 52 / m\<rceil>)")
  show "wf (measure (\<lambda>(m::real, e::int). nat \<lceil>2 ^ 52 / m\<rceil>))" by simp
next
  fix m :: real and e :: int
  assume h: "0 < m \<and> m < 2 ^ 52"
  define z where "z = 2 ^ 52 / m"
  have z1: "1 < z" using h by (simp add: z_def)
  have n2: "2 \<le> \<lceil>z\<rceil>" using z1 by linarith
  have r2: "(2::real) \<le> of_int \<lceil>z\<rceil>" using n2 by linarith
  have zc: "z \<le> of_int \<lceil>z\<rceil>" by linarith
  have "z / 2 \<le> of_int \<lceil>z\<rceil> - 1" using r2 zc by linarith
  then have "z / 2 \<le> of_int (\<lceil>z\<rceil> - 1)" by (simp only: of_int_diff of_int_1)
  then have "\<lceil>z / 2\<rceil> \<le> \<lceil>z\<rceil> - 1" by (simp only: ceiling_le_iff)
  then have lt: "\<lceil>z / 2\<rceil> < \<lceil>z\<rceil>" by simp
  have eq: "2 ^ 52 / (m * 2) = z / 2" by (simp add: z_def)
  have pos: "0 < \<lceil>z\<rceil>" using z1 by linarith
  show "((m * 2, e - 1), (m, e)) \<in> measure (\<lambda>(m, e). nat \<lceil>2 ^ 52 / m\<rceil>)"
    using lt pos eq by (simp add: z_def)
qed

definition roundEven :: "real \<Rightarrow> int" where
  "roundEven m =
     (let f = \<lfloor>m\<rfloor>; r = m - of_int f in
      if r < 1 / 2 then f else if r > 1 / 2 then f + 1 else if even f then f else f + 1)"

definition pow2 :: "int \<Rightarrow> real" where
  "pow2 e = (if e \<ge> 0 then 2 ^ nat e else 1 / 2 ^ nat (- e))"

definition fl :: "real \<Rightarrow> real" where
  "fl x =
     (if x = 0 then 0
      else
        let a = \<bar>x\<bar>;
            e0 = (if a \<ge> 1 then ilog2 \<lfloor>a\<rfloor> else - ilog2 \<lfloor>1 / a\<rfloor> - 1);
            (m1, e1) = scaleDown (a * pow2 (52 - e0)) (e0 - 52);
            (m, e) = scaleUp m1 e1
        in sgn x * of_int (roundEven m) * pow2 e)"

text \<open>
  \<^verbatim>\<open>float64(n)\<close>, the two operations the resampler uses, and \<^verbatim>\<open>int(x)\<close>.  The conversion
  truncates towards zero.  When the truncated value does not fit an \<^verbatim>\<open>int\<close>, Go leaves the
  result to the implementation; the model takes the result of \<^verbatim>\<open>amd64\<close>, which is
  \<open>-2^63\<close>.
\<close>

definition float64 :: "int \<Rightarrow> real" where
  "float64 n = fl (of_int n)"

definition fdiv :: "real \<Rightarrow> real \<Rightarrow> real" where
  "fdiv a b = fl (a / b)"

definition fmul :: "real \<Rightarrow> real \<Rightarrow> real" where
  "fmul a b = fl (a * b)"

definition towardZero :: "real \<Rightarrow> int" where
  "towardZero x = (if x \<ge> 0 then \<lfloor>x\<rfloor> else \<lceil>x\<rceil>)"

definition toInt :: "real \<Rightarrow> int" where
  "toInt x =
     (let t = towardZero x in
      if - (2 ^ 63) \<le> t \<and> t < 2 ^ 63 then t else - (2 ^ 63))"

section \<open>The aspect-preserving resampler\<close>

text \<open>
  The centred crop of \<^verbatim>\<open>resampleYCbCr444Fill\<close>: the result is
  \<open>(cropW, cropH, srcX0, srcY0)\<close>.
\<close>

definition cropRegion :: "int \<Rightarrow> int \<Rightarrow> int \<Rightarrow> int \<Rightarrow> int \<times> int \<times> int \<times> int" where
  "cropRegion srcW srcH dstW dstH =
     (let srcAspect = fdiv (float64 srcW) (float64 srcH);
          dstAspect = fdiv (float64 dstW) (float64 dstH) in
      if srcAspect > dstAspect then
        (let cropH = srcH;
             cropW = toInt (fmul (float64 srcH) dstAspect);
             cropW = (if cropW > srcW then srcW else cropW);
             cropW = (if cropW < 1 then 1 else cropW);
             srcX0 = quo (i64 (srcW - cropW)) 2;
             srcY0 = 0
         in (cropW, cropH, srcX0, srcY0))
      else
        (let cropW = srcW;
             cropH = toInt (fdiv (float64 srcW) dstAspect);
             cropH = (if cropH > srcH then srcH else cropH);
             cropH = (if cropH < 1 then 1 else cropH);
             srcX0 = 0;
             srcY0 = quo (i64 (srcH - cropH)) 2
         in (cropW, cropH, srcX0, srcY0)))"

text \<open>The loop over \<open>dx\<close>; its \<^verbatim>\<open>continue\<close> goes to the next pixel with the buffer as it is.\<close>

function resample_cols ::
  "byte list \<Rightarrow> int \<Rightarrow> int \<Rightarrow> int \<Rightarrow> int \<Rightarrow> int \<Rightarrow> int \<Rightarrow> int \<Rightarrow> byte list \<Rightarrow> byte list res" where
  "resample_cols src srcW dstW cropW srcX0 sy dy dx dst =
     (if dx < dstW then
        (let sxRel = (if dstW > 0 then quo (i64 (dx * cropW)) dstW else 0);
             sx = i64 (srcX0 + sxRel);
             sx = (if sx \<ge> srcW then i64 (srcW - 1) else sx);
             srcIndex = i64 ((sy * srcW + sx) * 3);
             dstIndex = i64 ((dy * dstW + dx) * 3) in
         if i64 (srcIndex + 2) \<ge> len src \<or> i64 (dstIndex + 2) \<ge> len dst then
           resample_cols src srcW dstW cropW srcX0 sy dy (dx + 1) dst
         else
           (case copy3 src srcIndex dst dstIndex of
              Panic \<Rightarrow> Panic
            | Ret dst' \<Rightarrow> resample_cols src srcW dstW cropW srcX0 sy dy (dx + 1) dst'))
      else Ret dst)"
  by pat_completeness auto
termination
  by (relation "measure (\<lambda>(src, srcW, dstW, cropW, srcX0, sy, dy, dx, dst). nat (dstW - dx))") auto

function resample_rows ::
  "byte list \<Rightarrow> int \<Rightarrow> int \<Rightarrow> int \<Rightarrow> int \<Rightarrow> int \<Rightarrow> int \<Rightarrow> int \<Rightarrow> int \<Rightarrow> int \<Rightarrow> byte list
     \<Rightarrow> byte list res" where
  "resample_rows src srcW srcH dstW dstH cropW cropH srcX0 srcY0 dy dst =
     (if dy < dstH then
        (let syRel = (if dstH > 0 then quo (i64 (dy * cropH)) dstH else 0);
             sy = i64 (srcY0 + syRel);
             sy = (if sy \<ge> srcH then i64 (srcH - 1) else sy) in
         case resample_cols src srcW dstW cropW srcX0 sy dy 0 dst of
           Panic \<Rightarrow> Panic
         | Ret dst' \<Rightarrow>
             resample_rows src srcW srcH dstW dstH cropW cropH srcX0 srcY0 (dy + 1) dst')
      else Ret dst)"
  by pat_completeness auto
termination
  by (relation "measure (\<lambda>(src, srcW, srcH, dstW, dstH, cropW, cropH, srcX0, srcY0, dy, dst).
        nat (dstH - dy))") auto

definition resampleYCbCr444Fill ::
  "byte list \<Rightarrow> int \<Rightarrow> int \<Rightarrow> int \<Rightarrow> int \<Rightarrow> byte list option res" where
  "resampleYCbCr444Fill src srcW srcH dstW dstH =
     (if srcW \<le> 0 \<or> srcH \<le> 0 \<or> dstW \<le> 0 \<or> dstH \<le> 0 then Ret None
      else if len src < i64 (srcW * srcH * 3) then Ret None
      else if srcW \<le> dstW \<and> srcH \<le> dstH then Ret (Some src)
      else
        bind_res (make_bytes (i64 (dstW * dstH * 3))) (\<lambda>dst.
          case cropRegion srcW srcH dstW dstH of
            (cropW, cropH, srcX0, srcY0) \<Rightarrow>
              bind_res (resample_rows src srcW srcH dstW dstH cropW cropH srcX0 srcY0 0 dst)
                (\<lambda>dst'. Ret (Some dst'))))"

section \<open>The delivery slot\<close>

text \<open>
  \<^verbatim>\<open>frames := make(chan Frame, 1)\<close>: a buffer of at most one frame.  \<open>sent\<close> records every
  value that was ever put on the channel.  An operation that would block has the
  result \<open>None\<close>.
\<close>

record chan =
  slot :: "Frame option"
  sent :: "Frame list"

text \<open>The send of a \<^verbatim>\<open>select\<close> with a \<^verbatim>\<open>default\<close>: \<open>None\<close> selects the default.\<close>

definition chan_trysend :: "chan \<Rightarrow> Frame \<Rightarrow> chan option" where
  "chan_trysend ch f =
     (case slot ch of
        None \<Rightarrow> Some (ch\<lparr>slot := Some f, sent := sent ch @ [f]\<rparr>)
      | Some g \<Rightarrow> None)"

definition chan_send :: "chan \<Rightarrow> Frame \<Rightarrow> chan option" where
  "chan_send ch f =
     (case slot ch of
        None \<Rightarrow> Some (ch\<lparr>slot := Some f, sent := sent ch @ [f]\<rparr>)
      | Some g \<Rightarrow> None)"

definition chan_recv :: "chan \<Rightarrow> (Frame \<times> chan) option" where
  "chan_recv ch =
     (case slot ch of
        None \<Rightarrow> None
      | Some f \<Rightarrow> Some (f, ch\<lparr>slot := None\<rparr>))"

text \<open>
  A receive of the consumer: it takes the frame out of the channel; on the empty
  channel it waits, and changes nothing.
\<close>

definition consumer_recv :: "chan \<Rightarrow> chan" where
  "consumer_recv ch = (case chan_recv ch of None \<Rightarrow> ch | Some (f, ch') \<Rightarrow> ch')"

text \<open>
  \<^verbatim>\<open>sendFrame\<close> of the producer: a send that does not wait; when the channel is full, a
  receive that takes the old frame out, and then a send.  These are three operations on
  the channel, and the consumer, which only receives, may run between them.  A receive
  of the consumer before the first or after the last of them is an event of its own in
  a run (below).  The flag \<open>race\<close> is a receive of the consumer between the first send,
  which has found the channel full, and the receive of the producer: the producer then
  waits on the empty channel, and no other sender exists.  A receive of the consumer
  between the receive of the producer and its second send finds the channel empty, and
  waits for that send.  The result is the channel, and whether the call returns or the
  producer waits.
\<close>

datatype sending = Returned chan | Waits chan

definition sendFrame :: "Frame \<Rightarrow> bool \<Rightarrow> chan \<Rightarrow> sending" where
  "sendFrame frame race ch =
     (case chan_trysend ch frame of
        Some ch' \<Rightarrow> Returned ch'
      | None \<Rightarrow>
          (let ch0 = (if race then consumer_recv ch else ch) in
           case chan_recv ch0 of
             None \<Rightarrow> Waits ch0
           | Some (old, ch1) \<Rightarrow>
               (case chan_send ch1 frame of
                  None \<Rightarrow> Waits ch1
                | Some ch2 \<Rightarrow> Returned ch2)))"

section \<open>The pipeline driver (Linux backend)\<close>

definition dropThreshold :: int where "dropThreshold = 30"

text \<open>What \<^verbatim>\<open>StartStream\<close> has settled when the producer starts.\<close>

record config =
  frameW :: int
  frameH :: int
  pixelFormat :: "32 word"
  stride :: int

definition outW :: "config \<Rightarrow> int" where
  "outW cfg = (if frameW cfg > cifWidth \<or> frameH cfg > cifHeight then cifWidth else frameW cfg)"

definition outH :: "config \<Rightarrow> int" where
  "outH cfg = (if frameW cfg > cifWidth \<or> frameH cfg > cifHeight then cifHeight else frameH cfg)"

text \<open>The state of the producer: its counter, the channel, and the time slept (ms).\<close>

record driver =
  misses :: int
  frames :: chan
  slept :: int

function makeBlack_loop :: "byte list \<Rightarrow> int \<Rightarrow> int \<Rightarrow> byte list res" where
  "makeBlack_loop buf size' i =
     (if i < size' then
        (case store3 buf i 16 128 128 of
           Panic \<Rightarrow> Panic
         | Ret buf' \<Rightarrow> makeBlack_loop buf' size' (i + 3))
      else Ret buf)"
  by pat_completeness auto
termination
  by (relation "measure (\<lambda>(buf, size', i). nat (size' - i))") auto

definition makeBlack :: "config \<Rightarrow> byte list option res" where
  "makeBlack cfg =
     (let size' = i64 (outW cfg * outH cfg * 3) in
      if size' \<le> 0 then Ret None
      else
        bind_res (make_bytes size') (\<lambda>buf.
        bind_res (makeBlack_loop buf size' 0) (\<lambda>buf'. Ret (Some buf'))))"

text \<open>
  How one cycle of the producer's loop ends: with \<^verbatim>\<open>continue\<close>, with \<^verbatim>\<open>return\<close>, waiting
  for ever in a channel operation, or in a panic; each with the state reached.
\<close>

datatype ctl = Continue driver | Return driver | Blocked driver | Crashed driver

text \<open>
  \<^verbatim>\<open>sendBlack\<close>: its boolean result, or \<open>None\<close> when the producer waits in \<^verbatim>\<open>sendFrame\<close>, and
  the channel.
\<close>

definition sendBlack :: "config \<Rightarrow> bool \<Rightarrow> chan \<Rightarrow> (bool option \<times> chan) res" where
  "sendBlack cfg race ch =
     (if outW cfg \<le> 0 \<or> outH cfg \<le> 0 then Ret (Some False, ch)
      else
        bind_res (makeBlack cfg) (\<lambda>data.
          case data of
            None \<Rightarrow> Ret (Some False, ch)
          | Some d \<Rightarrow>
              (case sendFrame \<lparr>Data = d, Width = outW cfg, Height = outH cfg\<rparr> race ch of
                 Waits ch' \<Rightarrow> Ret (None, ch')
               | Returned ch' \<Rightarrow> Ret (Some True, ch'))))"

definition handleDrop :: "config \<Rightarrow> int \<Rightarrow> int \<Rightarrow> bool \<Rightarrow> driver \<Rightarrow> ctl" where
  "handleDrop cfg longWait shortWait race s =
     (let s1 = s\<lparr>misses := i64 (misses s + 1)\<rparr> in
      if misses s1 \<ge> dropThreshold then
        (case sendBlack cfg race (frames s1) of
           Panic \<Rightarrow> Crashed s1
         | Ret (None, ch) \<Rightarrow> Blocked (s1\<lparr>frames := ch\<rparr>)
         | Ret (Some ok, ch) \<Rightarrow>
             Continue (s1\<lparr>frames := ch,
                          slept := slept s1 + (if ok then longWait else shortWait)\<rparr>))
      else Continue (s1\<lparr>slept := slept s1 + shortWait\<rparr>))"

text \<open>
  What the environment gives to one cycle: the context is cancelled; \<^verbatim>\<open>VIDIOC_DQBUF\<close>
  fails, with \<^verbatim>\<open>EAGAIN\<close> or \<^verbatim>\<open>EINTR\<close> (\<open>True\<close>) or with another error; or a buffer is
  dequeued: its index, its \<^verbatim>\<open>Bytesused\<close>, the contents of the mapped buffers, and whether
  \<^verbatim>\<open>VIDIOC_QBUF\<close> succeeds afterwards.  A cycle calls \<^verbatim>\<open>sendFrame\<close> at most once; \<open>race\<close> is
  the flag of that call.
\<close>

datatype fetch =
  CtxDone
| DQBufErr bool
| Dequeued nat int "byte list list" bool

definition cycle :: "config \<Rightarrow> fetch \<Rightarrow> bool \<Rightarrow> driver \<Rightarrow> ctl" where
  "cycle cfg ev race s =
     (case ev of
        CtxDone \<Rightarrow> Return s
      | DQBufErr again \<Rightarrow>
          if again then Continue (s\<lparr>slept := slept s + 5\<rparr>)
          else handleDrop cfg 33 10 race s
      | Dequeued index bytesused buffers qbufOk \<Rightarrow>
          if int index \<ge> len buffers then Continue s
          else
            (let data = buffers ! index;
                 sz = (if bytesused \<le> 0 \<or> bytesused > len data then len data else bytesused) in
             case bind_res (slice data 0 sz) (\<lambda>src.
                    convertFrame src (pixelFormat cfg) (frameW cfg) (frameH cfg) (stride cfg)) of
               Panic \<Rightarrow> Crashed s
             | Ret frameData \<Rightarrow>
                 if \<not> qbufOk then Return s
                 else
                   (case frameData of
                      None \<Rightarrow> handleDrop cfg 33 5 race s
                    | Some fd \<Rightarrow>
                        (case (if frameW cfg > cifWidth \<or> frameH cfg > cifHeight then
                                 bind_res (resampleYCbCr444Fill fd (frameW cfg) (frameH cfg)
                                             cifWidth cifHeight) (\<lambda>resampled.
                                   case resampled of
                                     None \<Rightarrow> Ret None
                                   | Some r \<Rightarrow> Ret (Some (r, cifWidth, cifHeight)))
                               else Ret (Some (fd, frameW cfg, frameH cfg))) of
                           Panic \<Rightarrow> Crashed s
                         | Ret None \<Rightarrow> handleDrop cfg 33 5 race s
                         | Ret (Some (dataOut, w, h)) \<Rightarrow>
                             (let frame = \<lparr>Data = dataOut, Width = w, Height = h\<rparr>;
                                  s0 = s\<lparr>misses := 0\<rparr> in
                              case sendFrame frame race (frames s0) of
                                Waits ch \<Rightarrow> Blocked (s0\<lparr>frames := ch\<rparr>)
                              | Returned ch \<Rightarrow> Continue (s0\<lparr>frames := ch\<rparr>))))))"

text \<open>
  A run of the session: cycles of the producer, each with the flag of its push,
  interleaved with receives of the consumer.  The run ends with the first cycle that
  does not end with \<^verbatim>\<open>continue\<close>.
\<close>

datatype event = Fetch fetch bool | Receive

fun run :: "config \<Rightarrow> event list \<Rightarrow> driver \<Rightarrow> ctl" where
  "run cfg [] s = Continue s"
| "run cfg (Receive # evs) s = run cfg evs (s\<lparr>frames := consumer_recv (frames s)\<rparr>)"
| "run cfg (Fetch ev race # evs) s =
     (case cycle cfg ev race s of
        Continue s' \<Rightarrow> run cfg evs s'
      | other \<Rightarrow> other)"

definition initial :: driver where
  "initial = \<lparr>misses = 0, frames = \<lparr>slot = None, sent = []\<rparr>, slept = 0\<rparr>"

section \<open>The fill frame of the Windows backend\<close>

text \<open>
  \<^verbatim>\<open>GetFrame\<close> of the Windows backend, which is written in C, converts a sample into the
  buffer \<^verbatim>\<open>gBuf\<close> of \<^verbatim>\<open>dstSize = dstW * dstH * 3\<close> bytes that it has allocated.  For a media
  subtype that is none of the five it supports (\<^verbatim>\<open>NV12\<close>, \<^verbatim>\<open>YUY2\<close>, \<^verbatim>\<open>UYVY\<close>, \<^verbatim>\<open>RGB32\<close>,
  \<^verbatim>\<open>RGB24\<close>) it runs the loop below over the buffer and sets \<^verbatim>\<open>gReady\<close>; the result is the
  buffer and the flag.  A store outside the buffer, which C leaves undefined, is \<open>Panic\<close>.
  The counter is an \<^verbatim>\<open>int\<close> of 32 bits; it is increased without reduction, since it cannot
  pass \<open>2^31\<close> before a store outside a buffer of \<^verbatim>\<open>dstSize\<close> bytes.
\<close>

function GetFrame_fill :: "byte list \<Rightarrow> int \<Rightarrow> int \<Rightarrow> byte list res" where
  "GetFrame_fill gBuf dstSize i =
     (if i < dstSize then
        (case bind_res (store gBuf i 16) (\<lambda>b1.
              bind_res (store b1 (i + 1) 128) (\<lambda>b2.
              store b2 (i + 2) 128)) of
           Panic \<Rightarrow> Panic
         | Ret gBuf' \<Rightarrow> GetFrame_fill gBuf' dstSize (i + 3))
      else Ret gBuf)"
  by pat_completeness auto
termination
  by (relation "measure (\<lambda>(gBuf, dstSize, i). nat (dstSize - i))") auto

definition GetFrame_unsupported :: "byte list \<Rightarrow> int \<Rightarrow> (byte list \<times> bool) res" where
  "GetFrame_unsupported gBuf dstSize =
     bind_res (GetFrame_fill gBuf dstSize 0) (\<lambda>gBuf'. Ret (gBuf', True))"

section \<open>Saving a frame as PNG\<close>

text \<open>
  \<^verbatim>\<open>SaveFramePNG\<close> uses the Go library for the colour conversion, the file and the
  encoder; they are parameters: \<open>ycbcrToRGB\<close>, whether \<^verbatim>\<open>os.Create\<close> succeeds on a path,
  and the bytes \<^verbatim>\<open>png.Encode\<close> writes for an image together with its success.  The file
  system is a map from paths to contents.  \<^verbatim>\<open>image.NewNRGBA\<close> panics when the length of
  its buffer, \<open>4 * Width * Height\<close>, does not fit an \<^verbatim>\<open>int\<close>, and allocates the buffer with
  \<^verbatim>\<open>make\<close> otherwise; the stride of the image is \<open>4 * Width\<close>, and \<^verbatim>\<open>PixOffset(x, y)\<close> is
  \<^verbatim>\<open>y*Stride + x*4\<close>.
\<close>

record env =
  ycbcrToRGB :: "byte \<Rightarrow> byte \<Rightarrow> byte \<Rightarrow> byte \<times> byte \<times> byte"
  osCreate :: "string \<Rightarrow> bool"
  pngEncode :: "int \<Rightarrow> int \<Rightarrow> byte list \<Rightarrow> byte list \<times> bool"

datatype error = InvalidFrameData | CreateError | EncodeError

definition newNRGBA :: "int \<Rightarrow> int \<Rightarrow> byte list res" where
  "newNRGBA w h =
     (if w < 0 \<or> h < 0 \<or> 4 * w * h \<ge> 2 ^ 63 then Panic else make_bytes (4 * w * h))"

function png_cols :: "env \<Rightarrow> Frame \<Rightarrow> int \<Rightarrow> int \<Rightarrow> byte list \<Rightarrow> byte list res" where
  "png_cols E frame y x pix =
     (if x < Width frame then
        (let i = i64 ((y * Width frame + x) * 3) in
         case bind_res (idx (Data frame) i) (\<lambda>yVal.
              bind_res (idx (Data frame) (i64 (i + 1))) (\<lambda>cb.
              bind_res (idx (Data frame) (i64 (i + 2))) (\<lambda>cr.
                case ycbcrToRGB E yVal cb cr of
                  (r, g, b) \<Rightarrow>
                    let di = i64 (y * i64 (4 * Width frame) + x * 4) in
                    bind_res (store pix (i64 (di + 0)) r) (\<lambda>p1.
                    bind_res (store p1 (i64 (di + 1)) g) (\<lambda>p2.
                    bind_res (store p2 (i64 (di + 2)) b) (\<lambda>p3.
                    store p3 (i64 (di + 3)) 0xff)))))) of
           Panic \<Rightarrow> Panic
         | Ret pix' \<Rightarrow> png_cols E frame y (x + 1) pix')
      else Ret pix)"
  by pat_completeness auto
termination
  by (relation "measure (\<lambda>(E, frame, y, x, pix). nat (Width frame - x))") auto

function png_rows :: "env \<Rightarrow> Frame \<Rightarrow> int \<Rightarrow> byte list \<Rightarrow> byte list res" where
  "png_rows E frame y pix =
     (if y < Height frame then
        (case png_cols E frame y 0 pix of
           Panic \<Rightarrow> Panic
         | Ret pix' \<Rightarrow> png_rows E frame (y + 1) pix')
      else Ret pix)"
  by pat_completeness auto
termination
  by (relation "measure (\<lambda>(E, frame, y, pix). nat (Height frame - y))") auto

definition SaveFramePNG ::
  "env \<Rightarrow> Frame \<Rightarrow> string \<Rightarrow> (string \<rightharpoonup> byte list)
     \<Rightarrow> (error option \<times> (string \<rightharpoonup> byte list)) res" where
  "SaveFramePNG E frame path fs =
     (if Width frame \<le> 0 \<or> Height frame \<le> 0
         \<or> len (Data frame) \<noteq> i64 (Width frame * Height frame * 3)
      then Ret (Some InvalidFrameData, fs)
      else
        bind_res (newNRGBA (Width frame) (Height frame)) (\<lambda>pix0.
        bind_res (png_rows E frame 0 pix0) (\<lambda>pix.
          if \<not> osCreate E path then Ret (Some CreateError, fs)
          else
            (case pngEncode E (Width frame) (Height frame) pix of
               (bytes, ok) \<Rightarrow>
                 Ret (if ok then None else Some EncodeError, fs(path \<mapsto> bytes))))))"

section \<open>Notions used in the statements\<close>

text \<open>
  The spec's words for the crop, with the conversion to an integer as a parameter:
  the cropped side is the converted value clamped to the source, and the crop is
  centred with a floor.  \<open>converted\<close> is the value that is converted.
\<close>

definition converted :: "int \<Rightarrow> int \<Rightarrow> int \<Rightarrow> int \<Rightarrow> real" where
  "converted w h maxW maxH =
     (let srcAspect = fdiv (float64 w) (float64 h);
          dstAspect = fdiv (float64 maxW) (float64 maxH) in
      if srcAspect > dstAspect then fmul (float64 h) dstAspect else fdiv (float64 w) dstAspect)"

definition specCrop :: "(real \<Rightarrow> int) \<Rightarrow> int \<Rightarrow> int \<Rightarrow> int \<Rightarrow> int \<Rightarrow> int \<times> int \<times> int \<times> int" where
  "specCrop rnd w h maxW maxH =
     (let srcAspect = fdiv (float64 w) (float64 h);
          dstAspect = fdiv (float64 maxW) (float64 maxH) in
      if srcAspect > dstAspect then
        (let cropW = max 1 (min w (rnd (fmul (float64 h) dstAspect)))
         in (cropW, h, \<lfloor>real_of_int (w - cropW) / 2\<rfloor>, 0))
      else
        (let cropH = max 1 (min h (rnd (fdiv (float64 w) dstAspect)))
         in (w, cropH, 0, \<lfloor>real_of_int (h - cropH) / 2\<rfloor>)))"

text \<open>The neutral fill, the push on the slot, and the state a run ends in.\<close>

definition neutralFill :: "nat \<Rightarrow> byte list" where
  "neutralFill n = concat (replicate n [16, 128, 128])"

definition blackFrame :: "config \<Rightarrow> Frame" where
  "blackFrame cfg =
     \<lparr>Data = neutralFill (nat (outW cfg * outH cfg)), Width = outW cfg, Height = outH cfg\<rparr>"

definition push :: "Frame \<Rightarrow> chan \<Rightarrow> chan" where
  "push f ch = ch\<lparr>slot := Some f, sent := sent ch @ [f]\<rparr>"

fun final :: "ctl \<Rightarrow> driver" where
  "final (Continue s) = s"
| "final (Return s) = s"
| "final (Blocked s) = s"
| "final (Crashed s) = s"

text \<open>
  The canonical-frame invariant, with the product as Go computes it (it is the
  product itself when that is below \<open>2^63\<close>).
\<close>

definition frameOK :: "Frame \<Rightarrow> bool" where
  "frameOK f = (0 < Width f \<and> 0 < Height f \<and> len (Data f) = i64 (Width f * Height f * 3))"

text \<open>\<open>sized n r\<close>: a buffer that the result \<open>r\<close> returns has \<open>n\<close> bytes.\<close>

definition sized :: "int \<Rightarrow> byte list option res \<Rightarrow> bool" where
  "sized n r = (case r of Panic \<Rightarrow> True | Ret None \<Rightarrow> True | Ret (Some d) \<Rightarrow> len d = n)"

declare packed_rows.simps [simp del] yuv24_cols.simps [simp del]
  nv12_cols.simps [simp del] nv12_rows.simps [simp del]
  yuyv_cols.simps [simp del] rgb24_cols.simps [simp del]
  ilog2.simps [simp del] scaleDown.simps [simp del] scaleUp.simps [simp del]
  resample_cols.simps [simp del] resample_rows.simps [simp del]
  makeBlack_loop.simps [simp del] png_cols.simps [simp del] png_rows.simps [simp del]
  GetFrame_fill.simps [simp del]

section \<open>Basic facts\<close>

subsection \<open>The 64-bit reduction\<close>

lemmas fmt_defs = v4l2PixFmtRGB24_def v4l2PixFmtYUV24_def v4l2PixFmtNV12_def v4l2PixFmtYUYV_def

lemma i64_id: "- (2 ^ 63) \<le> n \<Longrightarrow> n < 2 ^ 63 \<Longrightarrow> i64 n = n"
  by (simp add: i64_def)

lemma i64_range: "- (2 ^ 63) \<le> i64 n \<and> i64 n < 2 ^ 63"
proof -
  have "0 \<le> (n + 2 ^ 63) mod 2 ^ 64" "(n + 2 ^ 63) mod 2 ^ 64 < (2 ^ 64 :: int)" by simp_all
  then show ?thesis by (simp add: i64_def)
qed

lemma i64_cong: "a mod 2 ^ 64 = b mod 2 ^ 64 \<Longrightarrow> i64 a = i64 b"
proof -
  assume h: "a mod 2 ^ 64 = b mod 2 ^ 64"
  have "(a + 2 ^ 63) mod 2 ^ 64 = (b + 2 ^ 63) mod 2 ^ 64"
    using h by (rule mod_add_cong) simp
  then show ?thesis by (simp add: i64_def)
qed

lemma i64_mod: "i64 a mod 2 ^ 64 = a mod 2 ^ 64"
proof -
  have "i64 a = (a + 2 ^ 63) mod 2 ^ 64 + - (2 ^ 63)" by (simp add: i64_def)
  then have "i64 a mod 2 ^ 64 = ((a + 2 ^ 63) mod 2 ^ 64 + - (2 ^ 63)) mod 2 ^ 64" by simp
  also have "\<dots> = ((a + 2 ^ 63) + - (2 ^ 63)) mod 2 ^ 64" by (rule mod_add_left_eq)
  finally show ?thesis by simp
qed

lemma i64_arith:
  "i64 (i64 a) = i64 a"
  "i64 (i64 a + b) = i64 (a + b)" "i64 (a + i64 b) = i64 (a + b)"
  "i64 (i64 a - b) = i64 (a - b)" "i64 (a - i64 b) = i64 (a - b)"
  "i64 (i64 a * b) = i64 (a * b)" "i64 (a * i64 b) = i64 (a * b)"
proof -
  show "i64 (i64 a) = i64 a" by (rule i64_cong) (rule i64_mod)
  show "i64 (i64 a + b) = i64 (a + b)" by (rule i64_cong) (rule mod_add_cong [OF i64_mod refl])
  show "i64 (a + i64 b) = i64 (a + b)" by (rule i64_cong) (rule mod_add_cong [OF refl i64_mod])
  show "i64 (i64 a - b) = i64 (a - b)" by (rule i64_cong) (rule mod_diff_cong [OF i64_mod refl])
  show "i64 (a - i64 b) = i64 (a - b)" by (rule i64_cong) (rule mod_diff_cong [OF refl i64_mod])
  show "i64 (i64 a * b) = i64 (a * b)" by (rule i64_cong) (rule mod_mult_cong [OF i64_mod refl])
  show "i64 (a * i64 b) = i64 (a * b)" by (rule i64_cong) (rule mod_mult_cong [OF refl i64_mod])
qed

lemma mul_bound30:
  assumes "0 \<le> (a::int)" "a \<le> 2 ^ 30" "0 \<le> (b::int)" "b \<le> 2 ^ 30"
  shows "0 \<le> a * b" "a * b \<le> 2 ^ 60"
proof -
  show "0 \<le> a * b" using assms by simp
  have "a * b \<le> 2 ^ 30 * 2 ^ 30" using assms by (intro mult_mono) auto
  then show "a * b \<le> 2 ^ 60" by simp
qed

subsection \<open>Division\<close>

lemma quo_pos: "0 \<le> a \<Longrightarrow> 0 < b \<Longrightarrow> quo a b = a div b"
  by (simp add: quo_def)

lemma quo_bounds: "0 \<le> a \<Longrightarrow> 0 < b \<Longrightarrow> 0 \<le> quo a b \<and> quo a b \<le> a"
proof -
  assume h: "0 \<le> a" "0 < b"
  define q where "q = a div b"
  have q0: "0 \<le> q" using h by (simp add: q_def pos_imp_zdiv_nonneg_iff)
  have "q * 1 \<le> q * b" using q0 h by (intro mult_left_mono) auto
  moreover have "q * b + a mod b = a" by (simp add: q_def)
  moreover have "0 \<le> a mod b" using h by simp
  ultimately have "q \<le> a" by linarith
  then show ?thesis using q0 h by (simp add: quo_pos q_def)
qed

lemma quo2_floor: "0 \<le> a \<Longrightarrow> quo a 2 = \<lfloor>real_of_int a / 2\<rfloor>"
  using floor_divide_of_int_eq [of a 2, where ?'a = real] by (simp add: quo_def)

subsection \<open>Slices\<close>

lemma len_nonneg [simp]: "0 \<le> len xs"
  by (simp add: len_def)

lemma len_list_update [simp]: "len (xs[i := v]) = len xs"
  by (simp add: len_def)

lemma len_replicate [simp]: "len (replicate n v) = int n"
  by (simp add: len_def)

lemma bind_res_Ret: "bind_res m f = Ret y \<longleftrightarrow> (\<exists>x. m = Ret x \<and> f x = Ret y)"
  by (cases m) simp_all

lemma store_len: "store xs i v = Ret ys \<Longrightarrow> len ys = len xs"
  by (auto simp add: store_def split: if_splits)

lemma store3_len: "store3 xs i a b c = Ret ys \<Longrightarrow> len ys = len xs"
  by (auto simp add: store3_def bind_res_Ret dest!: store_len)

lemma copy3_len: "copy3 src si dst di = Ret ys \<Longrightarrow> len ys = len dst"
  by (auto simp add: copy3_def bind_res_Ret dest!: store_len)

lemma make_bytes_len: "make_bytes n = Ret b \<Longrightarrow> len b = n"
  by (auto simp add: make_bytes_def split: if_splits)

lemma slice_ok:
  "0 \<le> lo \<Longrightarrow> lo \<le> hi \<Longrightarrow> hi \<le> len xs \<Longrightarrow> \<exists>r. slice xs lo hi = Ret r \<and> len r = hi - lo"
  by (auto simp add: slice_def len_def)

lemma copy3_ok:
  assumes "0 \<le> si" "si + 2 < len src" "len src \<le> 2 ^ 63"
    and "0 \<le> di" "di + 2 < len dst" "len dst \<le> 2 ^ 63"
  shows "\<exists>d. copy3 src si dst di = Ret d \<and> len d = len dst"
proof -
  have e: "i64 (si + 1) = si + 1" "i64 (si + 2) = si + 2"
    "i64 (di + 1) = di + 1" "i64 (di + 2) = di + 2"
    using assms by (simp_all add: i64_id)
  show ?thesis using assms by (simp add: copy3_def store_def idx_def e)
qed

lemma store_triple:
  "0 \<le> i \<Longrightarrow> i + 2 < len xs \<Longrightarrow>
   bind_res (store xs i a) (\<lambda>b1. bind_res (store b1 (i + 1) b) (\<lambda>b2. store b2 (i + 2) c))
     = Ret (xs[nat i := a, Suc (nat i) := b, Suc (Suc (nat i)) := c])"
  by (simp add: store_def len_def nat_add_distrib)

lemma store3_eq:
  "0 \<le> i \<Longrightarrow> i + 2 < len xs \<Longrightarrow> len xs \<le> 2 ^ 63 \<Longrightarrow>
   store3 xs i a b c = Ret (xs[nat i := a, Suc (nat i) := b, Suc (Suc (nat i)) := c])"
proof -
  assume h: "0 \<le> i" "i + 2 < len xs" "len xs \<le> 2 ^ 63"
  have e: "i64 (i + 1) = i + 1" "i64 (i + 2) = i + 2" using h by (simp_all add: i64_id)
  show ?thesis using h by (simp add: store3_def e store_triple)
qed

lemma take3_update:
  "i + 2 < length xs \<Longrightarrow>
   take (i + 3) (xs[i := a, Suc i := b, Suc (Suc i) := c]) = take i xs @ [a, b, c]"
  by (simp add: numeral_3_eq_3 take_Suc_conv_app_nth nth_list_update)

lemma neutralFill_Suc: "neutralFill (Suc n) = [16, 128, 128] @ neutralFill n"
  by (simp add: neutralFill_def)

lemma len_neutralFill [simp]: "len (neutralFill n) = 3 * int n"
  by (induction n) (simp_all add: neutralFill_def len_def)

lemma sized_simps [simp]:
  "sized n Panic = True" "sized n (Ret None) = True" "sized n (Ret (Some d)) = (len d = n)"
  by (simp_all add: sized_def)

section \<open>The normalizer on the examples of the specification\<close>

lemma packedStride_one_row:
  "0 < rowBytes \<Longrightarrow> len src = rowBytes \<Longrightarrow> \<exists>es. packedStride src 1 stride' rowBytes = Some es"
  by (simp add: packedStride_def Let_def quo_def)

text \<open>
  C8, as stated: a 24-bit pixel \<open>(R, G, B) = (255, 0, 0)\<close> is normalized to
  \<open>(Y, Cb, Cr) = (81, 90, 240)\<close>.  The code does not do that: the luma is
  \<open>((66 * 255 + 128) >> 8) + 16 = 66 + 16\<close>.
\<close>

theorem rgb_red_counterexample:
  "convertFrame [255, 0, 0] v4l2PixFmtRGB24 1 1 3 \<noteq> Ret (Some [81, 90, 240])"
  by code_simp

text \<open>
  C8, amended: for every stride, the one-pixel frame \<open>(255, 0, 0)\<close> is normalized to
  \<open>(Y, Cb, Cr) = (82, 90, 240)\<close>.
\<close>

theorem rgb_red_pixel:
  "convertFrame [255, 0, 0] v4l2PixFmtRGB24 1 1 stride' = Ret (Some [82, 90, 240])"
proof -
  obtain es where es: "packedStride [255, 0, 0] 1 stride' 3 = Some es"
    using packedStride_one_row [of 3 "[255, 0, 0]" stride'] by (auto simp: len_def)
  have rows: "packed_rows (\<lambda>row y d. rgb24_cols 1 row y 0 d) [255, 0, 0] 1 es 3 0 [0, 0, 0]
      = Ret (Some [82, 90, 240])"
    by (simp add: packed_rows.simps rgb24_cols.simps len_def slice_def idx_def store3_def
        store_def sar_def clampToByte_def Let_def i64_def)
  show ?thesis
    by (simp add: convertFrame_def make_bytes_def maxAlloc_def es rows len_def fmt_defs
        numeral_3_eq_3 i64_def)
qed

text \<open>
  C9, as stated: the 4x2 biplanar frame with the luma plane \<open>10, ..., 80\<close> and the
  chroma plane \<open>100, 150\<close> is normalized with success.  The code returns \<^verbatim>\<open>nil\<close>: a row of
  four pixels has two chroma pairs, so the three lines of the frame need twelve bytes
  and the buffer has ten.
\<close>

theorem nv12_example_counterexample:
  "convertFrame [10, 20, 30, 40, 50, 60, 70, 80, 100, 150] v4l2PixFmtNV12 4 2 4 = Ret None"
  by code_simp

lemma nv12_example_rows:
  "nv12_rows [10, 20, 30, 40, 50, 60, 70, 80] [100, 150, c2, c3] 4 2 4 0 (replicate 24 0)
   = Ret (Some [10, 100, 150, 20, 100, 150, 30, c2, c3, 40, c2, c3,
                50, 100, 150, 60, 100, 150, 70, c2, c3, 80, c2, c3])"
  by (simp add: nv12_rows.simps nv12_cols.simps len_def idx_def store3_def store_def quo_def
      Let_def numeral_eq_Suc i64_def)

text \<open>
  C9, amended: with a chroma plane of one full row, \<open>100, 150, c2, c3\<close>, and a stride
  that is not given or at least the width (and a 32-bit value, as the \<^verbatim>\<open>bytesperline\<close> of
  V4L2 is), the normalization succeeds; pixel \<open>(0,0)\<close> is \<open>(10, 100, 150)\<close> and pixel
  \<open>(1,0)\<close> is \<open>(20, 100, 150)\<close>, with the same chroma pair.
\<close>

theorem nv12_example:
  "stride' \<le> 0 \<or> (4 \<le> stride' \<and> stride' < 2 ^ 32) \<Longrightarrow>
   convertFrame [10, 20, 30, 40, 50, 60, 70, 80, 100, 150, c2, c3] v4l2PixFmtNV12 4 2 stride'
   = Ret (Some [10, 100, 150, 20, 100, 150, 30, c2, c3, 40, c2, c3,
                50, 100, 150, 60, 100, 150, 70, c2, c3, 80, c2, c3])"
proof -
  assume h: "stride' \<le> 0 \<or> (4 \<le> stride' \<and> stride' < 2 ^ 32)"
  have es: "nv12Stride [10, 20, 30, 40, 50, 60, 70, 80, 100, 150, c2, c3] 2 stride' 4 = Some 4"
  proof (cases "stride' \<le> 0")
    case True
    then show ?thesis by (simp add: nv12Stride_def len_def quo_def i64_def)
  next
    case False
    then have r: "4 \<le> stride'" "stride' < 2 ^ 32" using h by auto
    then have "i64 (stride' * 3) = stride' * 3" by (intro i64_id) auto
    then show ?thesis using r False by (auto simp add: nv12Stride_def len_def quo_def i64_def)
  qed
  show ?thesis
    using nv12_example_rows [of c2 c3]
    by (simp add: convertFrame_def make_bytes_def maxAlloc_def es nv12_planes_def len_def
        fmt_defs i64_def slice_def)
qed

theorem nv12_example_witness:
  "((4::int) \<le> 0 \<or> ((4::int) \<le> 4 \<and> (4::int) < 2 ^ 32)) \<and>
   convertFrame [10, 20, 30, 40, 50, 60, 70, 80, 100, 150, 100, 150] v4l2PixFmtNV12 4 2 4
   = Ret (Some [10, 100, 150, 20, 100, 150, 30, 100, 150, 40, 100, 150,
                50, 100, 150, 60, 100, 150, 70, 100, 150, 80, 100, 150])"
  using nv12_example [of 4 100 150] by simp

section \<open>Formats outside the supported set\<close>

lemma GetFrame_fill_eq:
  "len gBuf = n \<Longrightarrow> 0 \<le> i \<Longrightarrow> i \<le> n \<Longrightarrow> 3 dvd i \<Longrightarrow> 3 dvd n
    \<Longrightarrow> GetFrame_fill gBuf n i = Ret (take (nat i) gBuf @ neutralFill (nat ((n - i) div 3)))"
proof (induction "nat (n - i)" arbitrary: i gBuf rule: less_induct)
  case less
  show ?case
  proof (cases "i < n")
    case False
    then have "i = n" using less.prems by simp
    then show ?thesis using less.prems
      by (subst GetFrame_fill.simps) (simp add: neutralFill_def len_def)
  next
    case True
    have "3 dvd (n - i)" using less.prems by (simp add: dvd_diff)
    then obtain k where k: "n - i = 3 * k" by (auto simp: dvd_def)
    then have kpos: "1 \<le> k" using True by simp
    have i3: "i + 3 \<le> n" using k kpos by simp
    define buf' where "buf' = gBuf[nat i := 16, Suc (nat i) := 128, Suc (Suc (nat i)) := 128]"
    have st: "bind_res (store gBuf i 16) (\<lambda>b1.
        bind_res (store b1 (i + 1) 128) (\<lambda>b2. store b2 (i + 2) 128)) = Ret buf'"
      using less.prems i3 by (simp add: store_triple buf'_def)
    have lb: "len buf' = n" using less.prems by (simp add: buf'_def len_def)
    have IH: "GetFrame_fill buf' n (i + 3)
        = Ret (take (nat (i + 3)) buf' @ neutralFill (nat ((n - (i + 3)) div 3)))"
      using lb less.prems i3 True by (intro less.hyps) auto
    have tk: "take (nat (i + 3)) buf' = take (nat i) gBuf @ [16, 128, 128]"
    proof -
      have "nat i + 2 < length gBuf" using less.prems i3 by (simp add: len_def)
      then have "take (nat i + 3) buf' = take (nat i) gBuf @ [16, 128, 128]"
        unfolding buf'_def by (rule take3_update)
      moreover have "nat (i + 3) = nat i + 3" using less.prems by (simp add: nat_add_distrib)
      ultimately show ?thesis by simp
    qed
    have nf: "neutralFill (nat ((n - i) div 3))
        = [16, 128, 128] @ neutralFill (nat ((n - (i + 3)) div 3))"
    proof -
      have a: "(n - i) div 3 = k" using k by simp
      have b: "(n - (i + 3)) div 3 = k - 1" using k by simp
      have "nat k = Suc (nat (k - 1))" using kpos by simp
      then show ?thesis using a b neutralFill_Suc by simp
    qed
    show ?thesis
      using True st IH tk nf by (subst GetFrame_fill.simps) simp
  qed
qed

text \<open>
  C2, as stated: a frame whose format tag is not supported is normalized to a frame of
  neutral fill.  The Linux normalizer returns \<^verbatim>\<open>nil\<close> instead; here for a 1x1 frame with
  the tag \<^verbatim>\<open>MJPG\<close>.
\<close>

theorem unsupported_counterexample:
  "convertFrame [1, 2, 3] 0x47504A4D 1 1 3 = Ret None
   \<and> convertFrame [1, 2, 3] 0x47504A4D 1 1 3 \<noteq> Ret (Some [16, 128, 128])"
  by code_simp

text \<open>
  C2, amended.  On Linux, for every format tag outside the four supported ones, and
  every buffer and stride, \<^verbatim>\<open>convertFrame\<close> returns \<^verbatim>\<open>nil\<close>, the value the driver counts as
  a miss, unless the frame is so large that the output buffer, which is allocated
  before the tag is looked at, has more than \<open>2^48\<close> bytes: then \<^verbatim>\<open>make\<close> panics.  On
  Windows, the branch of \<^verbatim>\<open>GetFrame\<close> for a subtype outside the five supported ones
  fills the whole output buffer of \<open>dstW * dstH * 3\<close> bytes (a positive \<^verbatim>\<open>int\<close> of C) with
  \<open>(16, 128, 128)\<close> and marks the frame as ready.
\<close>

theorem unsupported_is_nil:
  "(pixFmt \<notin> {v4l2PixFmtYUV24, v4l2PixFmtNV12, v4l2PixFmtYUYV, v4l2PixFmtRGB24} \<longrightarrow>
      convertFrame src pixFmt width height stride' =
        (if 0 < width \<and> 0 < height \<and> maxAlloc < i64 (width * height * 3) then Panic
         else Ret None))
   \<and> (0 < dstW \<and> 0 < dstH \<and> dstW * dstH * 3 < 2 ^ 31 \<and> len gBuf = dstW * dstH * 3 \<longrightarrow>
      GetFrame_unsupported gBuf (dstW * dstH * 3)
        = Ret (neutralFill (nat (dstW * dstH)), True))"
proof (intro conjI impI)
  assume "pixFmt \<notin> {v4l2PixFmtYUV24, v4l2PixFmtNV12, v4l2PixFmtYUYV, v4l2PixFmtRGB24}"
  then show "convertFrame src pixFmt width height stride' =
        (if 0 < width \<and> 0 < height \<and> maxAlloc < i64 (width * height * 3) then Panic
         else Ret None)"
    by (auto simp add: convertFrame_def make_bytes_def maxAlloc_def Let_def)
next
  assume h: "0 < dstW \<and> 0 < dstH \<and> dstW * dstH * 3 < 2 ^ 31 \<and> len gBuf = dstW * dstH * 3"
  define n where "n = dstW * dstH * 3"
  have pos: "0 < dstW * dstH" using h by simp
  then have npos: "0 \<le> n" by (simp add: n_def)
  have "GetFrame_fill gBuf n 0 = Ret (take (nat 0) gBuf @ neutralFill (nat ((n - 0) div 3)))"
    using h npos by (intro GetFrame_fill_eq) (auto simp add: n_def)
  moreover have "n div 3 = dstW * dstH" by (simp add: n_def)
  ultimately show "GetFrame_unsupported gBuf (dstW * dstH * 3)
        = Ret (neutralFill (nat (dstW * dstH)), True)"
    by (simp add: GetFrame_unsupported_def n_def [symmetric])
qed

theorem unsupported_is_nil_witness:
  "(0x31313159 :: 32 word) \<notin> {v4l2PixFmtYUV24, v4l2PixFmtNV12, v4l2PixFmtYUYV, v4l2PixFmtRGB24}
   \<and> convertFrame [7, 8, 9, 10] 0x31313159 2 2 2 = Ret None
   \<and> convertFrame [7, 8, 9, 10] 0x31313159 (2 ^ 25) (2 ^ 25) 2 = Panic
   \<and> (0::int) < 2 \<and> (0::int) < 1 \<and> (2::int) * 1 * 3 < 2 ^ 31
   \<and> len [1, 2, 3, 4, 5, 6 :: byte] = 2 * 1 * 3
   \<and> GetFrame_unsupported [1, 2, 3, 4, 5, 6] (2 * 1 * 3) = Ret ([16, 128, 128, 16, 128, 128], True)"
proof -
  have nf: "neutralFill 2 = [16, 128, 128, 16, 128, 128]"
    by (simp add: neutralFill_def numeral_2_eq_2)
  show ?thesis
    using unsupported_is_nil [of "0x31313159" "[7, 8, 9, 10]" 2 2 2 2 1 "[1, 2, 3, 4, 5, 6]"]
      unsupported_is_nil [of "0x31313159" "[7, 8, 9, 10]" "2 ^ 25" "2 ^ 25" 2 2 1
        "[1, 2, 3, 4, 5, 6]"]
    by (simp add: fmt_defs i64_def maxAlloc_def len_def nf)
qed

section \<open>The push on the delivery slot\<close>

lemma sendFrame_eq:
  "sendFrame f race ch =
     (if race \<and> slot ch \<noteq> None then Waits (ch\<lparr>slot := None\<rparr>) else Returned (push f ch))"
  by (cases "slot ch")
     (simp_all add: sendFrame_def consumer_recv_def chan_trysend_def chan_recv_def chan_send_def
        push_def Let_def)

text \<open>
  Whatever the slot holds, two pushes \<open>A\<close> then \<open>B\<close> with no receive of the consumer in
  between return, and leave \<open>B\<close> in the slot; the next receive gets \<open>B\<close> and empties the
  slot, so that \<open>A\<close> cannot be received any more.
\<close>

lemma freshest_wins:
  "\<exists>ch1 ch2. sendFrame A False ch = Returned ch1 \<and> sendFrame B False ch1 = Returned ch2
      \<and> slot ch2 = Some B \<and> chan_recv ch2 = Some (B, ch2\<lparr>slot := None\<rparr>)
      \<and> chan_recv (ch2\<lparr>slot := None\<rparr>) = None"
  by (simp add: sendFrame_eq push_def chan_recv_def)

text \<open>
  C6: the push never blocks, and after the pushes of \<open>A\<close> and \<open>B\<close> the slot holds \<open>B\<close>.
  The code does not keep the first half.  With the slot full (here with \<open>A\<close>, after any
  history \<open>hist\<close> of the channel), the push of \<open>B\<close> first tries to send, which fails; when
  the consumer receives \<open>A\<close> at this moment, the receive of the producer that was to
  discard \<open>A\<close> finds the channel empty and waits.  Nobody else sends, so that the
  producer waits for ever: \<open>B\<close> is never stored, and the slot stays empty.  Without that
  receive of the consumer the same push returns with \<open>B\<close> in the slot.
\<close>

theorem push_blocks:
  "sendFrame B True \<lparr>slot = Some A, sent = hist\<rparr> = Waits \<lparr>slot = None, sent = hist\<rparr>
   \<and> sendFrame B False \<lparr>slot = Some A, sent = hist\<rparr>
       = Returned \<lparr>slot = Some B, sent = hist @ [B]\<rparr>"
  by (simp add: sendFrame_def consumer_recv_def chan_trysend_def chan_recv_def chan_send_def)

section \<open>The size of the buffer that the normalizer returns\<close>

lemma yuv24_cols_sized: "sized (len dst) (yuv24_cols width row y x dst)"
proof (induction "nat (width - x)" arbitrary: x dst rule: less_induct)
  case less
  have IH: "\<And>d. x < width \<Longrightarrow> len d = len dst \<Longrightarrow> sized (len dst) (yuv24_cols width row y (x + 1) d)"
  proof -
    fix d :: "byte list" assume a: "x < width" "len d = len dst"
    have "sized (len d) (yuv24_cols width row y (x + 1) d)"
      using a by (intro less.hyps) auto
    then show "sized (len dst) (yuv24_cols width row y (x + 1) d)" using a by simp
  qed
  show ?case
    by (subst yuv24_cols.simps) (auto simp add: Let_def IH split: res.splits dest!: copy3_len)
qed

lemma yuyv_body_len:
  "bind_res (idx row si) (\<lambda>Y0.
     bind_res (idx row (i64 (si + 1))) (\<lambda>U.
     bind_res (idx row (i64 (si + 2))) (\<lambda>Y1.
     bind_res (idx row (i64 (si + 3))) (\<lambda>V.
       let di0 = i64 ((y * width + x) * 3) in
       bind_res (if i64 (di0 + 2) < len dst then store3 dst di0 Y0 U V
                 else Ret dst) (\<lambda>d1.
       if i64 (x + 1) < width then
         (let di1 = i64 ((y * width + x + 1) * 3) in
          if i64 (di1 + 2) < len d1 then store3 d1 di1 Y1 U V else Ret d1)
       else Ret d1))))) = Ret d \<Longrightarrow> len d = len dst"
proof -
  have a: "len d1 = len dst"
    if "(if c then store3 dst di0 Y0 U V else Ret dst) = Ret d1" for c d1 di0 Y0 U V
    using that by (auto split: if_splits dest: store3_len)
  have b: "len d = len d1"
    if "(if c1 then (if c2 then store3 d1 di1 Y1 U V else Ret d1) else Ret d1) = Ret d"
    for c1 c2 d1 di1 Y1 U V
    using that by (auto split: if_splits dest: store3_len)
  assume "bind_res (idx row si) (\<lambda>Y0.
     bind_res (idx row (i64 (si + 1))) (\<lambda>U.
     bind_res (idx row (i64 (si + 2))) (\<lambda>Y1.
     bind_res (idx row (i64 (si + 3))) (\<lambda>V.
       let di0 = i64 ((y * width + x) * 3) in
       bind_res (if i64 (di0 + 2) < len dst then store3 dst di0 Y0 U V
                 else Ret dst) (\<lambda>d1.
       if i64 (x + 1) < width then
         (let di1 = i64 ((y * width + x + 1) * 3) in
          if i64 (di1 + 2) < len d1 then store3 d1 di1 Y1 U V else Ret d1)
       else Ret d1))))) = Ret d"
  then obtain Y0 U Y1 V d1 where
    1: "(if i64 (i64 ((y * width + x) * 3) + 2) < len dst
         then store3 dst (i64 ((y * width + x) * 3)) Y0 U V else Ret dst) = Ret d1"
    and 2: "(if i64 (x + 1) < width then
         (if i64 (i64 ((y * width + x + 1) * 3) + 2) < len d1
          then store3 d1 (i64 ((y * width + x + 1) * 3)) Y1 U V else Ret d1)
       else Ret d1) = Ret d"
    unfolding bind_res_Ret Let_def by blast
  show ?thesis using a [OF 1] b [OF 2] by simp
qed

lemma yuyv_cols_sized: "sized (len dst) (yuyv_cols width row y x dst)"
proof (induction "nat (width - x)" arbitrary: x dst rule: less_induct)
  case less
  have IH: "\<And>d. x < width \<Longrightarrow> len d = len dst \<Longrightarrow> sized (len dst) (yuyv_cols width row y (x + 2) d)"
  proof -
    fix d :: "byte list" assume a: "x < width" "len d = len dst"
    have "sized (len d) (yuyv_cols width row y (x + 2) d)"
      using a by (intro less.hyps) auto
    then show "sized (len dst) (yuyv_cols width row y (x + 2) d)" using a by simp
  qed
  show ?case
  proof (cases "x < width \<and> \<not> len row \<le> i64 (i64 (x * 2) + 3)")
    case False
    then show ?thesis by (subst yuyv_cols.simps) (auto simp add: Let_def)
  next
    case True
    define body where "body = bind_res (idx row (i64 (x * 2))) (\<lambda>Y0.
     bind_res (idx row (i64 (i64 (x * 2) + 1))) (\<lambda>U.
     bind_res (idx row (i64 (i64 (x * 2) + 2))) (\<lambda>Y1.
     bind_res (idx row (i64 (i64 (x * 2) + 3))) (\<lambda>V.
       let di0 = i64 ((y * width + x) * 3) in
       bind_res (if i64 (di0 + 2) < len dst then store3 dst di0 Y0 U V
                 else Ret dst) (\<lambda>d1.
       if i64 (x + 1) < width then
         (let di1 = i64 ((y * width + x + 1) * 3) in
          if i64 (di1 + 2) < len d1 then store3 d1 di1 Y1 U V else Ret d1)
       else Ret d1)))))"
    have unfold: "yuyv_cols width row y x dst =
        (case body of Panic \<Rightarrow> Panic | Ret d \<Rightarrow> yuyv_cols width row y (x + 2) d)"
      using True by (subst yuyv_cols.simps) (simp add: Let_def body_def)
    show ?thesis
    proof (cases body)
      case Panic
      then show ?thesis by (simp add: unfold)
    next
      case (Ret d)
      then have "len d = len dst" unfolding body_def by (rule yuyv_body_len)
      then show ?thesis using unfold Ret IH True by simp
    qed
  qed
qed

lemma rgb24_cols_sized: "sized (len dst) (rgb24_cols width row y x dst)"
proof (induction "nat (width - x)" arbitrary: x dst rule: less_induct)
  case less
  have IH: "\<And>d. x < width \<Longrightarrow> len d = len dst \<Longrightarrow> sized (len dst) (rgb24_cols width row y (x + 1) d)"
  proof -
    fix d :: "byte list" assume a: "x < width" "len d = len dst"
    have "sized (len d) (rgb24_cols width row y (x + 1) d)"
      using a by (intro less.hyps) auto
    then show "sized (len dst) (rgb24_cols width row y (x + 1) d)" using a by simp
  qed
  show ?case
    by (subst rgb24_cols.simps)
       (auto simp add: Let_def IH split: res.splits prod.splits dest!: store3_len)
qed

lemma nv12_cols_sized: "sized (len dst) (nv12_cols yPlane uvPlane width es y x dst)"
proof (induction "nat (width - x)" arbitrary: x dst rule: less_induct)
  case less
  have IH: "\<And>d. x < width \<Longrightarrow> len d = len dst
      \<Longrightarrow> sized (len dst) (nv12_cols yPlane uvPlane width es y (x + 1) d)"
  proof -
    fix d :: "byte list" assume a: "x < width" "len d = len dst"
    have "sized (len d) (nv12_cols yPlane uvPlane width es y (x + 1) d)"
      using a by (intro less.hyps) auto
    then show "sized (len dst) (nv12_cols yPlane uvPlane width es y (x + 1) d)" using a by simp
  qed
  show ?case
    by (subst nv12_cols.simps)
       (auto simp add: Let_def IH split: res.splits prod.splits dest!: store3_len)
qed

lemma nv12_rows_sized: "sized (len dst) (nv12_rows yPlane uvPlane width height es y dst)"
proof (induction "nat (height - y)" arbitrary: y dst rule: less_induct)
  case less
  have IH: "\<And>d. y < height \<Longrightarrow> len d = len dst
      \<Longrightarrow> sized (len dst) (nv12_rows yPlane uvPlane width height es (y + 1) d)"
  proof -
    fix d :: "byte list" assume a: "y < height" "len d = len dst"
    have "sized (len d) (nv12_rows yPlane uvPlane width height es (y + 1) d)"
      using a by (intro less.hyps) auto
    then show "sized (len dst) (nv12_rows yPlane uvPlane width height es (y + 1) d)"
      using a by simp
  qed
  have c: "sized (len dst) (nv12_cols yPlane uvPlane width es y 0 dst)"
    by (rule nv12_cols_sized)
  show ?case
    using c
    by (subst nv12_rows.simps) (auto simp add: IH split: res.splits option.splits)
qed

lemma packed_rows_sized:
  assumes cols: "\<And>row y d. sized (len d) (cols row y d)"
  shows "sized (len dst) (packed_rows cols src height es rowBytes y dst)"
proof (induction "nat (height - y)" arbitrary: y dst rule: less_induct)
  case less
  have IH: "\<And>d. y < height \<Longrightarrow> len d = len dst
      \<Longrightarrow> sized (len dst) (packed_rows cols src height es rowBytes (y + 1) d)"
  proof -
    fix d :: "byte list" assume a: "y < height" "len d = len dst"
    have "sized (len d) (packed_rows cols src height es rowBytes (y + 1) d)"
      using a by (intro less.hyps) auto
    then show "sized (len dst) (packed_rows cols src height es rowBytes (y + 1) d)"
      using a by simp
  qed
  have c: "\<And>row. sized (len dst) (cols row y dst)" by (rule cols)
  show ?case
  proof (cases "slice src (i64 (y * es)) (i64 (i64 (y * es) + rowBytes))")
    case Panic
    then show ?thesis by (subst packed_rows.simps) (simp add: Let_def)
  next
    case (Ret row)
    then show ?thesis
      using c [of row]
      by (subst packed_rows.simps) (auto simp add: Let_def IH split: res.splits option.splits)
  qed
qed

lemma convertFrame_sized:
  "sized (i64 (width * height * 3)) (convertFrame src pixFmt width height stride')"
proof (cases "width \<le> 0 \<or> height \<le> 0 \<or> i64 (width * height * 3) \<le> 0")
  case True
  then show ?thesis by (auto simp add: convertFrame_def Let_def)
next
  case False
  show ?thesis
  proof (cases "make_bytes (i64 (width * height * 3))")
    case Panic
    then show ?thesis using False by (simp add: convertFrame_def Let_def)
  next
    case (Ret dst)
    have ld: "len dst = i64 (width * height * 3)" using Ret by (rule make_bytes_len)
    have p: "sized (len dst) (case packedStride src height stride' rowBytes of
         None \<Rightarrow> Ret None
       | Some es \<Rightarrow> packed_rows cols src height es rowBytes 0 dst)"
      if "\<And>row y d. sized (len d) (cols row y d)" for cols rowBytes
      using that
      by (cases "packedStride src height stride' rowBytes") (simp_all add: packed_rows_sized)
    have p4: "sized (len dst) (case nv12Stride src height stride' width of
         None \<Rightarrow> Ret None
       | Some es \<Rightarrow> nv12_planes src width height es dst)"
    proof (cases "nv12Stride src height stride' width")
      case None
      then show ?thesis by simp
    next
      case (Some es)
      have "sized (len dst) (nv12_planes src width height es dst)"
        using nv12_rows_sized [of dst _ _ width height es 0]
        by (auto simp add: nv12_planes_def Let_def slice_def)
      then show ?thesis using Some by simp
    qed
    show ?thesis
      using False Ret p4 p [of "\<lambda>row y d. yuv24_cols width row y 0 d", OF yuv24_cols_sized]
        p [of "\<lambda>row y d. yuyv_cols width row y 0 d", OF yuyv_cols_sized]
        p [of "\<lambda>row y d. rgb24_cols width row y 0 d", OF rgb24_cols_sized]
      by (simp add: convertFrame_def Let_def ld)
  qed
qed

lemma convertFrame_Some:
  assumes "convertFrame src pixFmt width height stride' = Ret (Some d)"
  shows "0 < width \<and> 0 < height \<and> len d = i64 (width * height * 3)"
proof -
  have "\<not> (width \<le> 0 \<or> height \<le> 0)"
  proof
    assume "width \<le> 0 \<or> height \<le> 0"
    then have "convertFrame src pixFmt width height stride' = Ret None"
      by (simp add: convertFrame_def)
    then show False using assms by simp
  qed
  then show ?thesis
    using convertFrame_sized [of width height src pixFmt stride'] assms by simp
qed

section \<open>Bounds discipline of the normalizer\<close>

text \<open>
  C7: for every supported format and every declared width, height and stride,
  \<^verbatim>\<open>convertFrame\<close> makes no access out of range, and returns \<^verbatim>\<open>nil\<close> when the buffer is
  shorter than the declared sizes require.  The biplanar path does not do that for
  every declared stride.  With a buffer of one byte, width 1, height 2 and the stride
  \<open>2^62\<close>, the products \<^verbatim>\<open>effectiveStride*totalLines\<close> and \<^verbatim>\<open>effectiveStride*height\<close> wrap
  around to negative values, both comparisons with \<^verbatim>\<open>len(src)\<close> let the frame pass, and
  \<^verbatim>\<open>src[:yPlaneSize]\<close> panics with a negative bound.  The same happens with sizes that
  fit the 32-bit fields of V4L2: height \<open>2^31 + 1\<close> and stride \<open>2^32 - 1\<close>.
\<close>

theorem nv12_stride_overflow:
  "convertFrame [0] v4l2PixFmtNV12 1 2 (2 ^ 62) = Panic
   \<and> convertFrame [0] v4l2PixFmtNV12 1 2147483649 4294967295 = Panic"
proof
  show "convertFrame [0] v4l2PixFmtNV12 1 2 (2 ^ 62) = Panic"
    by (simp add: convertFrame_def make_bytes_def maxAlloc_def nv12Stride_def nv12_planes_def
        len_def fmt_defs i64_def quo_def slice_def Let_def)
next
  have s: "nv12Stride [0] 2147483649 4294967295 1 = Some 4294967295"
    by (simp add: nv12Stride_def len_def quo_def i64_def)
  have p: "nv12_planes [0] 1 2147483649 4294967295 dst = Panic" for dst
    by (simp add: nv12_planes_def len_def i64_def slice_def)
  show "convertFrame [0] v4l2PixFmtNV12 1 2147483649 4294967295 = Panic"
    by (simp add: convertFrame_def make_bytes_def maxAlloc_def s p len_def fmt_defs i64_def
        Let_def)
qed

section \<open>The resampler\<close>

lemmas fl_eval = fl_def Let_def ilog2.simps scaleDown.simps scaleUp.simps roundEven_def pow2_def
  float64_def fdiv_def fmul_def toInt_def towardZero_def

lemma centre:
  "1 \<le> c \<Longrightarrow> c \<le> w \<Longrightarrow> w < 2 ^ 63 \<Longrightarrow> quo (i64 (w - c)) 2 = \<lfloor>real_of_int (w - c) / 2\<rfloor>"
proof -
  assume h: "1 \<le> c" "c \<le> w" "w < 2 ^ 63"
  then have "i64 (w - c) = w - c" by (intro i64_id) auto
  then show ?thesis using h by (simp add: quo2_floor)
qed

lemma crop_eq:
  assumes "1 \<le> w" "w < 2 ^ 63" "1 \<le> h" "h < 2 ^ 63"
  shows "cropRegion w h maxW maxH = specCrop toInt w h maxW maxH"
proof -
  have cw: "quo (i64 (w - max 1 (min w t))) 2 = \<lfloor>real_of_int (w - max 1 (min w t)) / 2\<rfloor>" for t
    using assms by (intro centre) auto
  have ch: "quo (i64 (h - max 1 (min h t))) 2 = \<lfloor>real_of_int (h - max 1 (min h t)) / 2\<rfloor>" for t
    using assms by (intro centre) auto
  have m: "(if (if t > s then s else t) < 1 then 1 else (if t > s then s else t)) = max 1 (min s t)"
    for s t :: int by (auto simp add: max_def min_def)
  show ?thesis
    by (simp add: cropRegion_def specCrop_def Let_def m cw ch)
qed

lemma toInt_fits: "\<bar>x\<bar> < 2 ^ 63 \<Longrightarrow> toInt x = towardZero x"
proof -
  assume h: "\<bar>x\<bar> < 2 ^ 63"
  have "- (2 ^ 63) \<le> towardZero x \<and> towardZero x < 2 ^ 63"
  proof (cases "x \<ge> 0")
    case True
    then have "0 \<le> \<lfloor>x\<rfloor>" by simp
    moreover have "\<lfloor>x\<rfloor> < 2 ^ 63" using h True by (simp add: floor_less_iff)
    ultimately show ?thesis using True by (simp add: towardZero_def)
  next
    case False
    then have "\<lceil>x\<rceil> \<le> 0" by (simp add: ceiling_le_iff)
    moreover have "- (2 ^ 63) < \<lceil>x\<rceil>" using h False by (simp add: less_ceiling_iff)
    ultimately show ?thesis using False by (simp add: towardZero_def)
  qed
  then show ?thesis by (simp add: toInt_def Let_def)
qed

text \<open>
  C4, as stated: the cropped side is the product (or quotient) rounded to the nearest
  integer.  The code converts with \<^verbatim>\<open>int(...)\<close>, which truncates: for a 640x480 source
  and the bounds 352x288 the product is 586.66..., the code crops to a width of 586 at
  \<open>x = 27\<close>, and the rounded value would be 587 at \<open>x = 26\<close>.
\<close>

theorem crop_round_counterexample:
  "cropRegion 640 480 352 288 = (586, 480, 27, 0)
   \<and> specCrop round 640 480 352 288 = (587, 480, 26, 0)"
  by (simp add: cropRegion_def specCrop_def fl_eval quo_def round_def i64_def)

text \<open>
  C4, amended: for a source and bounds of at least 1x1 (their sizes being values of
  \<^verbatim>\<open>int\<close>), and whenever the product or quotient that is converted is below \<open>2^63\<close> in
  absolute value, so that its integer part fits an \<^verbatim>\<open>int\<close>, the crop is the one of the
  spec with the truncation towards zero in the place of the rounding: the cropped side
  clamped to the source side, the other side kept, and the crop centred with a floor.
\<close>

theorem crop_trunc:
  assumes "1 \<le> w" "w < 2 ^ 63" "1 \<le> h" "h < 2 ^ 63"
    and "1 \<le> maxW" "maxW < 2 ^ 63" "1 \<le> maxH" "maxH < 2 ^ 63"
    and "\<bar>converted w h maxW maxH\<bar> < 2 ^ 63"
  shows "cropRegion w h maxW maxH = specCrop towardZero w h maxW maxH"
proof -
  have "specCrop toInt w h maxW maxH = specCrop towardZero w h maxW maxH"
  proof (cases "fdiv (float64 w) (float64 h) > fdiv (float64 maxW) (float64 maxH)")
    case True
    then have "\<bar>fmul (float64 h) (fdiv (float64 maxW) (float64 maxH))\<bar> < 2 ^ 63"
      using assms(9) by (simp add: converted_def Let_def)
    then show ?thesis using True by (simp add: specCrop_def Let_def toInt_fits)
  next
    case False
    then have "\<bar>fdiv (float64 w) (fdiv (float64 maxW) (float64 maxH))\<bar> < 2 ^ 63"
      using assms(9) by (simp add: converted_def Let_def)
    then show ?thesis using False by (simp add: specCrop_def Let_def toInt_fits)
  qed
  then show ?thesis using crop_eq [OF assms(1-4)] by simp
qed

theorem crop_trunc_witness:
  "(1::int) \<le> 640 \<and> (640::int) < 2 ^ 63 \<and> (1::int) \<le> 480 \<and> (480::int) < 2 ^ 63
   \<and> (1::int) \<le> 352 \<and> (352::int) < 2 ^ 63 \<and> (1::int) \<le> 288 \<and> (288::int) < 2 ^ 63
   \<and> \<bar>converted 640 480 352 288\<bar> < 2 ^ 63
   \<and> cropRegion 640 480 352 288 = specCrop towardZero 640 480 352 288
   \<and> specCrop towardZero 640 480 352 288 = (586, 480, 27, 0)"
proof -
  have c: "\<bar>converted 640 480 352 288\<bar> < 2 ^ 63"
    by (simp add: converted_def fl_eval)
  have v: "specCrop towardZero 640 480 352 288 = (586, 480, 27, 0)"
    by (simp add: specCrop_def fl_eval)
  show ?thesis using crop_trunc [of 640 480 352 288] c v by simp
qed

lemma cropRegion_inside:
  assumes "1 \<le> w" "w < 2 ^ 63" "1 \<le> h" "h < 2 ^ 63"
    and c: "cropRegion w h maxW maxH = (cropW, cropH, srcX0, srcY0)"
  shows "1 \<le> cropW \<and> cropW \<le> w \<and> 1 \<le> cropH \<and> cropH \<le> h
    \<and> 0 \<le> srcX0 \<and> srcX0 \<le> w \<and> 0 \<le> srcY0 \<and> srcY0 \<le> h"
proof -
  have f: "0 \<le> \<lfloor>real_of_int (s - max 1 (min s t)) / 2\<rfloor>
      \<and> \<lfloor>real_of_int (s - max 1 (min s t)) / 2\<rfloor> \<le> s" if "1 \<le> s" for s t :: int
  proof -
    define k where "k = s - max 1 (min s t)"
    have k: "0 \<le> k" "k \<le> s" using that by (auto simp add: k_def)
    have "\<lfloor>real_of_int k / 2\<rfloor> = k div 2"
      using floor_divide_of_int_eq [of k 2, where ?'a = real] by simp
    moreover have "0 \<le> k div 2" "k div 2 \<le> k" using k by auto
    ultimately show ?thesis using k unfolding k_def by simp
  qed
  have "specCrop toInt w h maxW maxH = (cropW, cropH, srcX0, srcY0)"
    using crop_eq [OF assms(1-4)] c by simp
  then show ?thesis
    using assms(1,3) f [of w] f [of h]
    by (auto simp add: specCrop_def Let_def split: if_splits)
qed

lemma resample_cols_len:
  "resample_cols src srcW dstW cropW srcX0 sy dy dx dst = Ret d \<Longrightarrow> len d = len dst"
proof (induction "nat (dstW - dx)" arbitrary: dx dst rule: less_induct)
  case less
  show ?case
  proof (cases "dx < dstW")
    case False
    then show ?thesis using less.prems by (subst (asm) resample_cols.simps) simp
  next
    case True
    have "\<exists>dst'. len dst' = len dst
        \<and> resample_cols src srcW dstW cropW srcX0 sy dy (dx + 1) dst' = Ret d"
      using less.prems True
      by (subst (asm) resample_cols.simps)
         (auto simp add: Let_def split: if_splits res.splits dest: copy3_len)
    then obtain dst' where d: "len dst' = len dst"
        "resample_cols src srcW dstW cropW srcX0 sy dy (dx + 1) dst' = Ret d" by blast
    have "len d = len dst'" using True d(2) by (intro less.hyps [of "dx + 1" dst']) auto
    then show ?thesis using d by simp
  qed
qed

lemma resample_rows_len:
  "resample_rows src srcW srcH dstW dstH cropW cropH srcX0 srcY0 dy dst = Ret d
    \<Longrightarrow> len d = len dst"
proof (induction "nat (dstH - dy)" arbitrary: dy dst rule: less_induct)
  case less
  show ?case
  proof (cases "dy < dstH")
    case False
    then show ?thesis using less.prems by (subst (asm) resample_rows.simps) simp
  next
    case True
    have "\<exists>dst'. len dst' = len dst
        \<and> resample_rows src srcW srcH dstW dstH cropW cropH srcX0 srcY0 (dy + 1) dst' = Ret d"
      using less.prems True
      by (subst (asm) resample_rows.simps)
         (auto simp add: Let_def split: if_splits res.splits dest: resample_cols_len)
    then obtain dst' where d: "len dst' = len dst"
        "resample_rows src srcW srcH dstW dstH cropW cropH srcX0 srcY0 (dy + 1) dst' = Ret d"
      by blast
    have "len d = len dst'" using True d(2) by (intro less.hyps [of "dy + 1" dst']) auto
    then show ?thesis using d by simp
  qed
qed

lemma resample_Some:
  assumes r: "resampleYCbCr444Fill src srcW srcH dstW dstH = Ret (Some d)"
  shows "(srcW \<le> dstW \<and> srcH \<le> dstH \<and> d = src)
        \<or> (\<not> (srcW \<le> dstW \<and> srcH \<le> dstH) \<and> len d = i64 (dstW * dstH * 3))"
proof (cases "srcW \<le> dstW \<and> srcH \<le> dstH")
  case True
  then show ?thesis using r by (auto simp add: resampleYCbCr444Fill_def split: if_splits)
next
  case False
  obtain cropW cropH srcX0 srcY0
    where c: "cropRegion srcW srcH dstW dstH = (cropW, cropH, srcX0, srcY0)"
    by (cases "cropRegion srcW srcH dstW dstH") auto
  from r False obtain dst0 where m: "make_bytes (i64 (dstW * dstH * 3)) = Ret dst0"
    and rows: "resample_rows src srcW srcH dstW dstH cropW cropH srcX0 srcY0 0 dst0 = Ret d"
    by (auto simp add: resampleYCbCr444Fill_def c bind_res_Ret split: if_splits)
  have "len d = len dst0" using rows by (rule resample_rows_len)
  then show ?thesis using False make_bytes_len [OF m] by simp
qed

lemma resample_cols_ok:
  assumes r: "0 \<le> dy" "dy \<le> 2 ^ 30" "0 < dstW" "dstW \<le> 2 ^ 30" "0 \<le> sy" "sy \<le> 2 ^ 30"
      "0 \<le> srcX0" "srcX0 \<le> 2 ^ 30" "0 \<le> cropW" "cropW \<le> 2 ^ 30" "0 < srcW" "srcW \<le> 2 ^ 30"
      "len src \<le> 2 ^ 63"
  shows "0 \<le> dx \<Longrightarrow> len dst \<le> 2 ^ 63
    \<Longrightarrow> \<exists>d. resample_cols src srcW dstW cropW srcX0 sy dy dx dst = Ret d \<and> len d = len dst"
proof (induction "nat (dstW - dx)" arbitrary: dx dst rule: less_induct)
  case less
  have IH: "\<And>d. dx < dstW \<Longrightarrow> len d = len dst
      \<Longrightarrow> \<exists>d'. resample_cols src srcW dstW cropW srcX0 sy dy (dx + 1) d = Ret d' \<and> len d' = len dst"
  proof -
    fix d :: "byte list" assume a: "dx < dstW" "len d = len dst"
    have "\<exists>d'. resample_cols src srcW dstW cropW srcX0 sy dy (dx + 1) d = Ret d' \<and> len d' = len d"
      using a less.prems by (intro less.hyps) auto
    then show "\<exists>d'. resample_cols src srcW dstW cropW srcX0 sy dy (dx + 1) d = Ret d' \<and> len d' = len dst"
      using a by simp
  qed
  show ?case
  proof (cases "dx < dstW")
    case False
    then show ?thesis by (subst resample_cols.simps) simp
  next
    case True
    have dx30: "dx \<le> 2 ^ 30" using True r by simp
    define q where "q = quo (dx * cropW) dstW"
    define sx0 where "sx0 = srcX0 + q"
    define sx where "sx = (if sx0 \<ge> srcW then srcW - 1 else sx0)"
    define srcIndex where "srcIndex = (sy * srcW + sx) * 3"
    define dstIndex where "dstIndex = (dy * dstW + dx) * 3"
    have p: "0 \<le> dx * cropW" "dx * cropW \<le> 2 ^ 60"
      using mul_bound30 [of dx cropW] less.prems r dx30 by auto
    have e1: "i64 (dx * cropW) = dx * cropW" using p by (intro i64_id) auto
    have qb: "0 \<le> q" "q \<le> 2 ^ 60" using quo_bounds [of "dx * cropW" dstW] p r by (auto simp add: q_def)
    have e2: "i64 (srcX0 + q) = sx0" using qb r unfolding sx0_def by (intro i64_id) auto
    have e3: "i64 (srcW - 1) = srcW - 1" using r by (intro i64_id) auto
    have sx: "0 \<le> sx" "sx \<le> 2 ^ 30" using qb r by (auto simp add: sx_def sx0_def)
    have ps: "0 \<le> sy * srcW" "sy * srcW \<le> 2 ^ 60" using mul_bound30 [of sy srcW] r by auto
    have pd: "0 \<le> dy * dstW" "dy * dstW \<le> 2 ^ 60" using mul_bound30 [of dy dstW] r by auto
    have si: "0 \<le> srcIndex" "srcIndex + 2 < 2 ^ 63" using ps sx by (auto simp add: srcIndex_def)
    have di: "0 \<le> dstIndex" "dstIndex + 2 < 2 ^ 63"
      using pd dx30 less.prems by (auto simp add: dstIndex_def)
    have e4: "i64 ((sy * srcW + sx) * 3) = srcIndex"
      using si unfolding srcIndex_def by (intro i64_id) auto
    have e5: "i64 ((dy * dstW + dx) * 3) = dstIndex"
      using di unfolding dstIndex_def by (intro i64_id) auto
    have e6: "i64 (srcIndex + 2) = srcIndex + 2" "i64 (dstIndex + 2) = dstIndex + 2"
      using si di by (simp_all add: i64_id)
    have unfold: "resample_cols src srcW dstW cropW srcX0 sy dy dx dst =
        (if srcIndex + 2 \<ge> len src \<or> dstIndex + 2 \<ge> len dst then
           resample_cols src srcW dstW cropW srcX0 sy dy (dx + 1) dst
         else
           (case copy3 src srcIndex dst dstIndex of
              Panic \<Rightarrow> Panic
            | Ret dst' \<Rightarrow> resample_cols src srcW dstW cropW srcX0 sy dy (dx + 1) dst'))"
      using True r(3)
      by (subst resample_cols.simps)
         (simp only: Let_def if_True e1 q_def [symmetric] e2 e3 sx_def [symmetric] e4 e5 e6)
    show ?thesis
    proof (cases "srcIndex + 2 \<ge> len src \<or> dstIndex + 2 \<ge> len dst")
      case True
      then show ?thesis using unfold IH [of dst] \<open>dx < dstW\<close> by simp
    next
      case False
      then obtain d where d: "copy3 src srcIndex dst dstIndex = Ret d" "len d = len dst"
        using copy3_ok [of srcIndex src dstIndex dst] si di r less.prems by auto
      then show ?thesis using unfold False IH [of d] \<open>dx < dstW\<close> by simp
    qed
  qed
qed

lemma resample_rows_ok:
  assumes r: "0 < dstW" "dstW \<le> 2 ^ 30" "0 < dstH" "dstH \<le> 2 ^ 30"
      "0 \<le> srcX0" "srcX0 \<le> 2 ^ 30" "0 \<le> cropW" "cropW \<le> 2 ^ 30"
      "0 \<le> srcY0" "srcY0 \<le> 2 ^ 30" "0 \<le> cropH" "cropH \<le> 2 ^ 30"
      "0 < srcW" "srcW \<le> 2 ^ 30" "0 < srcH" "srcH \<le> 2 ^ 30" "len src \<le> 2 ^ 63"
  shows "0 \<le> dy \<Longrightarrow> len dst \<le> 2 ^ 63
    \<Longrightarrow> \<exists>d. resample_rows src srcW srcH dstW dstH cropW cropH srcX0 srcY0 dy dst = Ret d
          \<and> len d = len dst"
proof (induction "nat (dstH - dy)" arbitrary: dy dst rule: less_induct)
  case less
  show ?case
  proof (cases "dy < dstH")
    case False
    then show ?thesis by (subst resample_rows.simps) simp
  next
    case True
    have dy30: "dy \<le> 2 ^ 30" using True r by simp
    define q where "q = quo (dy * cropH) dstH"
    define sy0 where "sy0 = srcY0 + q"
    define sy where "sy = (if sy0 \<ge> srcH then srcH - 1 else sy0)"
    have p: "0 \<le> dy * cropH" "dy * cropH \<le> 2 ^ 60"
      using mul_bound30 [of dy cropH] less.prems r dy30 by auto
    have e1: "i64 (dy * cropH) = dy * cropH" using p by (intro i64_id) auto
    have qb: "0 \<le> q" "q \<le> 2 ^ 60"
      using quo_bounds [of "dy * cropH" dstH] p r by (auto simp add: q_def)
    have e2: "i64 (srcY0 + q) = sy0" using qb r unfolding sy0_def by (intro i64_id) auto
    have e3: "i64 (srcH - 1) = srcH - 1" using r by (intro i64_id) auto
    have sy: "0 \<le> sy" "sy \<le> 2 ^ 30" using qb r by (auto simp add: sy_def sy0_def)
    obtain d where d: "resample_cols src srcW dstW cropW srcX0 sy dy 0 dst = Ret d" "len d = len dst"
      using resample_cols_ok [of dy dstW sy srcX0 cropW srcW src 0 dst] sy r dy30 less.prems
      by auto
    have "\<exists>d'. resample_rows src srcW srcH dstW dstH cropW cropH srcX0 srcY0 (dy + 1) d = Ret d'
          \<and> len d' = len d"
      using True less.prems d by (intro less.hyps) auto
    moreover have "resample_rows src srcW srcH dstW dstH cropW cropH srcX0 srcY0 dy dst =
        (case resample_cols src srcW dstW cropW srcX0 sy dy 0 dst of
           Panic \<Rightarrow> Panic
         | Ret dst' \<Rightarrow>
             resample_rows src srcW srcH dstW dstH cropW cropH srcX0 srcY0 (dy + 1) dst')"
      using True r(3)
      by (subst resample_rows.simps)
         (simp only: Let_def if_True e1 q_def [symmetric] e2 e3 sy_def [symmetric])
    ultimately show ?thesis using d by simp
  qed
qed

lemma resample_ok:
  assumes "1 \<le> srcW" "srcW \<le> 2 ^ 30" "1 \<le> srcH" "srcH \<le> 2 ^ 30"
    and "1 \<le> dstW" "dstW \<le> 2 ^ 30" "1 \<le> dstH" "dstH \<le> 2 ^ 30"
    and "srcW * srcH * 3 \<le> len src" "len src \<le> 2 ^ 63"
  shows "if srcW \<le> dstW \<and> srcH \<le> dstH
         then resampleYCbCr444Fill src srcW srcH dstW dstH = Ret (Some src)
         else if dstW * dstH * 3 \<le> maxAlloc
         then (\<exists>dst. resampleYCbCr444Fill src srcW srcH dstW dstH = Ret (Some dst)
                 \<and> len dst = dstW * dstH * 3)
         else resampleYCbCr444Fill src srcW srcH dstW dstH = Panic"
proof -
  obtain cropW cropH srcX0 srcY0
    where c: "cropRegion srcW srcH dstW dstH = (cropW, cropH, srcX0, srcY0)"
    by (cases "cropRegion srcW srcH dstW dstH") auto
  have "srcW < 2 ^ 63" "srcH < 2 ^ 63" using assms by auto
  from cropRegion_inside [OF assms(1) this(1) assms(3) this(2) c]
  have b: "1 \<le> cropW" "cropW \<le> srcW" "1 \<le> cropH" "cropH \<le> srcH"
    "0 \<le> srcX0" "srcX0 \<le> srcW" "0 \<le> srcY0" "srcY0 \<le> srcH" by auto
  have ps: "0 \<le> srcW * srcH" "srcW * srcH \<le> 2 ^ 60" using mul_bound30 [of srcW srcH] assms by auto
  have pd: "0 \<le> dstW * dstH" "dstW * dstH \<le> 2 ^ 60" using mul_bound30 [of dstW dstH] assms by auto
  have es: "i64 (srcW * srcH * 3) = srcW * srcH * 3" using ps by (intro i64_id) auto
  have ed: "i64 (dstW * dstH * 3) = dstW * dstH * 3" using pd by (intro i64_id) auto
  define n where "n = dstW * dstH * 3"
  have nn: "0 \<le> n" "n < 2 ^ 63" using pd by (auto simp add: n_def)
  have guard: "\<not> (srcW \<le> 0 \<or> srcH \<le> 0 \<or> dstW \<le> 0 \<or> dstH \<le> 0)"
    "\<not> len src < srcW * srcH * 3" using assms by auto
  have unfold: "resampleYCbCr444Fill src srcW srcH dstW dstH =
      (if srcW \<le> dstW \<and> srcH \<le> dstH then Ret (Some src)
       else bind_res (make_bytes n) (\<lambda>dst.
              bind_res (resample_rows src srcW srcH dstW dstH cropW cropH srcX0 srcY0 0 dst)
                (\<lambda>dst'. Ret (Some dst'))))"
    using guard by (simp add: resampleYCbCr444Fill_def es ed c n_def)
  show ?thesis
  proof (cases "srcW \<le> dstW \<and> srcH \<le> dstH")
    case True
    then show ?thesis using unfold by simp
  next
    case False
    have unfold2: "resampleYCbCr444Fill src srcW srcH dstW dstH =
        bind_res (make_bytes n) (\<lambda>dst.
          bind_res (resample_rows src srcW srcH dstW dstH cropW cropH srcX0 srcY0 0 dst)
            (\<lambda>dst'. Ret (Some dst')))"
      unfolding unfold using False by (rule if_not_P)
    show ?thesis
    proof (cases "n \<le> maxAlloc")
      case big: False
      then have "make_bytes n = Panic" by (simp add: make_bytes_def)
      then have "resampleYCbCr444Fill src srcW srcH dstW dstH = Panic"
        using unfold2 by simp
      moreover have "\<not> dstW * dstH * 3 \<le> maxAlloc" using big by (simp add: n_def)
      ultimately show ?thesis unfolding if_not_P [OF False] by (simp only: if_False)
    next
      case fits: True
      define dst0 where "dst0 = replicate (nat n) (0::byte)"
      have l0: "len dst0 = n" using nn by (simp add: dst0_def)
      have mk: "make_bytes n = Ret dst0"
        using nn fits by (simp add: make_bytes_def dst0_def)
      have "len dst0 \<le> 2 ^ 63" using l0 nn by simp
      then obtain d where
        d: "resample_rows src srcW srcH dstW dstH cropW cropH srcX0 srcY0 0 dst0 = Ret d"
           "len d = len dst0"
        using resample_rows_ok [of dstW dstH srcX0 cropW srcY0 cropH srcW srcH src 0 dst0] b assms
        by auto
      have "resampleYCbCr444Fill src srcW srcH dstW dstH = Ret (Some d)"
        using unfold2 mk d by simp
      then have "\<exists>dst. resampleYCbCr444Fill src srcW srcH dstW dstH = Ret (Some dst)
          \<and> len dst = dstW * dstH * 3"
        using d l0 by (simp add: n_def)
      moreover have "dstW * dstH * 3 \<le> maxAlloc" using fits by (simp add: n_def)
      ultimately show ?thesis unfolding if_not_P [OF False] by (simp only: if_True)
    qed
  qed
qed

text \<open>
  C3, as stated: a source that exceeds the bounds on some axis gives a frame of exactly
  the bounds, \<open>maxW * maxH * 3\<close> bytes, whatever the bounds are.  The code allocates that
  buffer with \<^verbatim>\<open>make\<close>, which panics when it is asked for more than \<open>2^48\<close> bytes: here for
  a source of 2x1 and the bounds \<open>1 x 2^47\<close>.
\<close>

theorem resample_size_counterexample:
  "resampleYCbCr444Fill [1, 2, 3, 4, 5, 6] 2 1 1 (2 ^ 47) = Panic"
  by (simp add: resampleYCbCr444Fill_def make_bytes_def maxAlloc_def len_def i64_def)

text \<open>
  C3, amended: for a source of at least 1x1 whose buffer holds \<open>srcW * srcH * 3\<close> bytes,
  and bounds of at least 1x1, all four sizes at most \<open>2^30\<close> (so that no product of the
  loops leaves the range of \<^verbatim>\<open>int\<close>; the length of a slice is in that range): a source
  within the bounds on both axes is returned as it is; any other source gives a buffer
  of exactly \<open>dstW * dstH * 3\<close> bytes when that is at most \<open>2^48\<close>, the largest
  allocation, and a panic of \<^verbatim>\<open>make\<close> otherwise.
\<close>

theorem resample_size:
  assumes "1 \<le> srcW" "srcW \<le> 2 ^ 30" "1 \<le> srcH" "srcH \<le> 2 ^ 30"
    and "1 \<le> dstW" "dstW \<le> 2 ^ 30" "1 \<le> dstH" "dstH \<le> 2 ^ 30"
    and "srcW * srcH * 3 \<le> len src" "len src \<le> 2 ^ 63"
  shows "if srcW \<le> dstW \<and> srcH \<le> dstH
         then resampleYCbCr444Fill src srcW srcH dstW dstH = Ret (Some src)
         else if dstW * dstH * 3 \<le> maxAlloc
         then (\<exists>dst. resampleYCbCr444Fill src srcW srcH dstW dstH = Ret (Some dst)
                 \<and> len dst = dstW * dstH * 3)
         else resampleYCbCr444Fill src srcW srcH dstW dstH = Panic"
  using assms by (rule resample_ok)

theorem resample_size_witness:
  "(1::int) \<le> 2 \<and> (2::int) \<le> 2 ^ 30 \<and> (1::int) \<le> 1 \<and> (1::int) \<le> 2 ^ 30
   \<and> 2 * 2 * 3 \<le> len [1, 2, 3, 4, 5, 6, 7, 8, 9, 10, 11, 12 :: byte]
   \<and> len [1, 2, 3, 4, 5, 6, 7, 8, 9, 10, 11, 12 :: byte] \<le> 2 ^ 63
   \<and> resampleYCbCr444Fill [1, 2, 3, 4, 5, 6, 7, 8, 9, 10, 11, 12] 2 2 2 2
       = Ret (Some [1, 2, 3, 4, 5, 6, 7, 8, 9, 10, 11, 12])
   \<and> (1::int) * 1 * 3 \<le> maxAlloc
   \<and> (\<exists>dst. resampleYCbCr444Fill [1, 2, 3, 4, 5, 6, 7, 8, 9, 10, 11, 12] 2 2 1 1 = Ret (Some dst)
         \<and> len dst = 1 * 1 * 3)
   \<and> (1::int) \<le> 2 ^ 20 \<and> (2 ^ 20 :: int) \<le> 2 ^ 30
   \<and> (1::int) \<le> 2 ^ 20 - 1 \<and> (2 ^ 20 - 1 :: int) \<le> 2 ^ 30
   \<and> 2 ^ 20 * 1 * 3 \<le> len (replicate 3145728 (0::byte))
   \<and> len (replicate 3145728 (0::byte)) \<le> 2 ^ 63
   \<and> \<not> (2 ^ 20 - 1 :: int) * 2 ^ 30 * 3 \<le> maxAlloc
   \<and> resampleYCbCr444Fill (replicate 3145728 0) (2 ^ 20) 1 (2 ^ 20 - 1) (2 ^ 30) = Panic"
  using resample_size [of 2 2 2 2 "[1, 2, 3, 4, 5, 6, 7, 8, 9, 10, 11, 12]"]
    resample_size [of 2 2 1 1 "[1, 2, 3, 4, 5, 6, 7, 8, 9, 10, 11, 12]"]
    resample_size [of "2 ^ 20" 1 "2 ^ 20 - 1" "2 ^ 30" "replicate 3145728 0"]
  by (simp add: len_def maxAlloc_def)

section \<open>The driver\<close>

lemma makeBlack_loop_len: "makeBlack_loop buf size' i = Ret b \<Longrightarrow> len b = len buf"
proof (induction "nat (size' - i)" arbitrary: i buf rule: less_induct)
  case less
  show ?case
  proof (cases "i < size'")
    case False
    then show ?thesis using less.prems by (subst (asm) makeBlack_loop.simps) simp
  next
    case True
    have "\<exists>buf'. len buf' = len buf \<and> makeBlack_loop buf' size' (i + 3) = Ret b"
      using less.prems True
      by (subst (asm) makeBlack_loop.simps) (auto split: res.splits dest: store3_len)
    then obtain buf' where d: "len buf' = len buf" "makeBlack_loop buf' size' (i + 3) = Ret b"
      by blast
    have "len b = len buf'" using True d(2) by (intro less.hyps [of "i + 3" buf']) auto
    then show ?thesis using d by simp
  qed
qed

lemma makeBlack_Some: "makeBlack cfg = Ret (Some b) \<Longrightarrow> len b = i64 (outW cfg * outH cfg * 3)"
proof -
  assume h: "makeBlack cfg = Ret (Some b)"
  define n where "n = i64 (outW cfg * outH cfg * 3)"
  have "\<not> n \<le> 0" using h by (auto simp add: makeBlack_def Let_def n_def)
  then obtain buf where m: "make_bytes n = Ret buf" and l: "makeBlack_loop buf n 0 = Ret b"
    using h by (auto simp add: makeBlack_def Let_def n_def [symmetric] bind_res_Ret)
  show ?thesis
    using makeBlack_loop_len [OF l] make_bytes_len [OF m] by (simp add: n_def)
qed

lemma sendBlack_cases:
  "sendBlack cfg race ch = Panic \<or> sendBlack cfg race ch = Ret (Some False, ch)
   \<or> (\<exists>f. frameOK f \<and> Width f = outW cfg \<and> Height f = outH cfg
          \<and> (sendBlack cfg race ch = Ret (Some True, push f ch)
             \<or> sendBlack cfg race ch = Ret (None, ch\<lparr>slot := None\<rparr>)))"
proof (cases "outW cfg \<le> 0 \<or> outH cfg \<le> 0")
  case True
  then show ?thesis by (auto simp add: sendBlack_def)
next
  case False
  show ?thesis
  proof (cases "makeBlack cfg")
    case Panic
    then show ?thesis using False by (simp add: sendBlack_def)
  next
    case (Ret data)
    show ?thesis
    proof (cases data)
      case None
      then show ?thesis using False Ret by (simp add: sendBlack_def)
    next
      case (Some b)
      define f where "f = \<lparr>Data = b, Width = outW cfg, Height = outH cfg\<rparr>"
      have "len b = i64 (outW cfg * outH cfg * 3)" using Ret Some by (intro makeBlack_Some) simp
      then have "frameOK f" using False by (simp add: frameOK_def f_def)
      moreover have "sendBlack cfg race ch =
          (if race \<and> slot ch \<noteq> None then Ret (None, ch\<lparr>slot := None\<rparr>)
           else Ret (Some True, push f ch))"
        using False Ret Some by (simp add: sendBlack_def sendFrame_eq f_def)
      ultimately show ?thesis by (auto simp add: f_def)
    qed
  qed
qed

lemma handleDrop_sent:
  assumes "\<forall>f \<in> set (sent (frames s)). frameOK f"
  shows "\<forall>f \<in> set (sent (frames (final (handleDrop cfg longWait shortWait race s)))). frameOK f"
  using sendBlack_cases [of cfg race "frames s"] assms
  by (auto simp add: handleDrop_def Let_def push_def)

lemma cycle_cases:
  "cycle cfg ev race s = Return s
   \<or> cycle cfg ev race s = Continue s
   \<or> cycle cfg ev race s = Continue (s\<lparr>slept := slept s + 5\<rparr>)
   \<or> cycle cfg ev race s = Crashed s
   \<or> (\<exists>longWait shortWait. cycle cfg ev race s = handleDrop cfg longWait shortWait race s)
   \<or> (\<exists>f. (\<exists>index bytesused buffers. ev = Dequeued index bytesused buffers True)
         \<and> frameOK f \<and> Width f = outW cfg \<and> Height f = outH cfg
         \<and> (cycle cfg ev race s = Continue (s\<lparr>misses := 0, frames := push f (frames s)\<rparr>)
            \<or> cycle cfg ev race s
                = Blocked (s\<lparr>misses := 0, frames := (frames s)\<lparr>slot := None\<rparr>\<rparr>)))"
proof (cases ev)
  case CtxDone
  then show ?thesis by (simp add: cycle_def)
next
  case (DQBufErr again)
  then show ?thesis by (cases again) (auto simp add: cycle_def)
next
  case (Dequeued index bytesused buffers qbufOk)
  show ?thesis
  proof (cases "int index \<ge> len buffers")
    case True
    then show ?thesis using Dequeued by (simp add: cycle_def)
  next
    case False
    define data where "data = buffers ! index"
    define sz where "sz = (if bytesused \<le> 0 \<or> bytesused > len data then len data else bytesused)"
    have "0 \<le> sz \<and> sz \<le> len data" by (auto simp add: sz_def)
    then obtain src where src: "slice data 0 sz = Ret src"
      using slice_ok [of 0 sz data] by auto
    define conv where
      "conv = convertFrame src (pixelFormat cfg) (frameW cfg) (frameH cfg) (stride cfg)"
    define deliver where "deliver = (\<lambda>f.
        if race \<and> slot (frames s) \<noteq> None
        then Blocked (s\<lparr>misses := 0, frames := (frames s)\<lparr>slot := None\<rparr>\<rparr>)
        else Continue (s\<lparr>misses := 0, frames := push f (frames s)\<rparr>))"
    have unfold: "cycle cfg ev race s =
      (case conv of
         Panic \<Rightarrow> Crashed s
       | Ret frameData \<Rightarrow>
           if \<not> qbufOk then Return s
           else
             (case frameData of
                None \<Rightarrow> handleDrop cfg 33 5 race s
              | Some fd \<Rightarrow>
                  (case (if frameW cfg > cifWidth \<or> frameH cfg > cifHeight then
                           bind_res (resampleYCbCr444Fill fd (frameW cfg) (frameH cfg)
                                       cifWidth cifHeight) (\<lambda>resampled.
                             case resampled of
                               None \<Rightarrow> Ret None
                             | Some r \<Rightarrow> Ret (Some (r, cifWidth, cifHeight)))
                         else Ret (Some (fd, frameW cfg, frameH cfg))) of
                     Panic \<Rightarrow> Crashed s
                   | Ret None \<Rightarrow> handleDrop cfg 33 5 race s
                   | Ret (Some (dataOut, w, h)) \<Rightarrow>
                       (let frame = \<lparr>Data = dataOut, Width = w, Height = h\<rparr>;
                            s0 = s\<lparr>misses := 0\<rparr> in
                        case sendFrame frame race (frames s0) of
                          Waits ch \<Rightarrow> Blocked (s0\<lparr>frames := ch\<rparr>)
                        | Returned ch \<Rightarrow> Continue (s0\<lparr>frames := ch\<rparr>)))))"
      using Dequeued False src
      by (simp add: cycle_def Let_def data_def [symmetric] sz_def [symmetric] conv_def)
    have del: "deliver f = Continue (s\<lparr>misses := 0, frames := push f (frames s)\<rparr>)
        \<or> deliver f = Blocked (s\<lparr>misses := 0, frames := (frames s)\<lparr>slot := None\<rparr>\<rparr>)" for f
      by (simp add: deliver_def)
    show ?thesis
    proof (cases conv)
      case Panic
      then show ?thesis using unfold by simp
    next
      case (Ret frameData)
      show ?thesis
      proof (cases frameData)
        case None
        then show ?thesis using unfold Ret by auto
      next
        case (Some fd)
        have fd: "conv = Ret (Some fd)" using Ret Some by simp
        then have pos: "0 < frameW cfg" "0 < frameH cfg"
          and lfd: "len fd = i64 (frameW cfg * frameH cfg * 3)"
          using convertFrame_Some [of src "pixelFormat cfg" "frameW cfg" "frameH cfg" "stride cfg" fd]
          by (auto simp add: conv_def)
        show ?thesis
        proof (cases qbufOk)
          case False
          then show ?thesis using unfold fd by simp
        next
          case True
          show ?thesis
          proof (cases "frameW cfg > cifWidth \<or> frameH cfg > cifHeight")
            case small: False
            define f where "f = \<lparr>Data = fd, Width = frameW cfg, Height = frameH cfg\<rparr>"
            have "frameOK f \<and> Width f = outW cfg \<and> Height f = outH cfg"
              using lfd pos small by (auto simp add: f_def frameOK_def outW_def outH_def)
            moreover have "cycle cfg ev race s = deliver f"
              using unfold fd True small by (simp add: f_def sendFrame_eq deliver_def Let_def)
            ultimately show ?thesis using Dequeued True del [of f] by auto
          next
            case big: True
            show ?thesis
            proof (cases "resampleYCbCr444Fill fd (frameW cfg) (frameH cfg) cifWidth cifHeight")
              case Panic
              then show ?thesis using unfold fd True big by simp
            next
              case (Ret resampled)
              show ?thesis
              proof (cases resampled)
                case None
                then show ?thesis using unfold fd True big Ret by auto
              next
                case (Some r)
                have "resampleYCbCr444Fill fd (frameW cfg) (frameH cfg) cifWidth cifHeight
                    = Ret (Some r)" using Ret Some by simp
                from resample_Some [OF this] big
                have lr: "len r = i64 (cifWidth * cifHeight * 3)" by auto
                define f where "f = \<lparr>Data = r, Width = cifWidth, Height = cifHeight\<rparr>"
                have "frameOK f \<and> Width f = outW cfg \<and> Height f = outH cfg"
                  using lr big
                  by (auto simp add: f_def frameOK_def outW_def outH_def cifWidth_def cifHeight_def)
                moreover have "cycle cfg ev race s = deliver f"
                  using unfold fd True big Ret Some
                  by (simp add: f_def sendFrame_eq deliver_def Let_def)
                ultimately show ?thesis using Dequeued True del [of f] by auto
              qed
            qed
          qed
        qed
      qed
    qed
  qed
qed

lemma cycle_sent:
  assumes "\<forall>f \<in> set (sent (frames s)). frameOK f"
  shows "\<forall>f \<in> set (sent (frames (final (cycle cfg ev race s)))). frameOK f"
  using cycle_cases [of cfg ev race s] handleDrop_sent [OF assms, of cfg] assms
  by (auto simp add: push_def)

lemma run_sent:
  "\<forall>f \<in> set (sent (frames s)). frameOK f
    \<Longrightarrow> \<forall>f \<in> set (sent (frames (final (run cfg evs s)))). frameOK f"
proof (induction evs arbitrary: s)
  case Nil
  then show ?case by simp
next
  case (Cons e evs)
  show ?case
  proof (cases e)
    case Receive
    have "\<forall>f \<in> set (sent (frames (s\<lparr>frames := consumer_recv (frames s)\<rparr>))). frameOK f"
      using Cons.prems by (auto simp add: consumer_recv_def chan_recv_def split: option.splits)
    then show ?thesis
      using Receive Cons.IH [of "s\<lparr>frames := consumer_recv (frames s)\<rparr>"] by simp
  next
    case (Fetch ev race)
    have c: "\<forall>f \<in> set (sent (frames (final (cycle cfg ev race s)))). frameOK f"
      using Cons.prems by (rule cycle_sent)
    show ?thesis
    proof (cases "cycle cfg ev race s")
      case (Continue s')
      then show ?thesis using Fetch c Cons.IH [of s'] by simp
    qed (use Fetch c in simp_all)
  qed
qed

lemma red_frame:
  "convertFrame [255, 0, 0] v4l2PixFmtRGB24 1 1 3 = Ret (Some [82, 90, 240])"
  by code_simp

text \<open>
  C1: in every run of the session (cycles of the producer on any fetched buffers,
  interleaved with receives), every frame that was put on the channel, be it
  converted, resampled or neutral fill, has a positive width and height and
  \<open>Width * Height * 3\<close> bytes of data: the length is equal to the product as Go computes
  it, and to the product itself when that is below \<open>2^63\<close>.
\<close>

theorem delivered_frames_canonical:
  "\<forall>f \<in> set (sent (frames (final (run cfg evs initial)))).
      0 < Width f \<and> 0 < Height f \<and> len (Data f) = i64 (Width f * Height f * 3)
      \<and> (Width f * Height f * 3 < 2 ^ 63 \<longrightarrow> len (Data f) = Width f * Height f * 3)"
proof
  fix f assume "f \<in> set (sent (frames (final (run cfg evs initial))))"
  then have ok: "frameOK f" using run_sent [of initial cfg evs] by (simp add: initial_def)
  then have p: "0 < Width f" "0 < Height f" by (simp_all add: frameOK_def)
  define n where "n = Width f * Height f * 3"
  have "0 \<le> n" using p by (simp add: n_def)
  then have "n < 2 ^ 63 \<longrightarrow> i64 n = n" by (simp add: i64_id)
  then have "Width f * Height f * 3 < 2 ^ 63 \<longrightarrow> i64 (Width f * Height f * 3) = Width f * Height f * 3"
    by (simp add: n_def)
  then show "0 < Width f \<and> 0 < Height f \<and> len (Data f) = i64 (Width f * Height f * 3)
      \<and> (Width f * Height f * 3 < 2 ^ 63 \<longrightarrow> len (Data f) = Width f * Height f * 3)"
    using ok by (auto simp add: frameOK_def)
qed

theorem delivered_frames_canonical_witness:
  "\<lparr>Data = [82, 90, 240], Width = 1, Height = 1\<rparr>
     \<in> set (sent (frames (final (run \<lparr>frameW = 1, frameH = 1, pixelFormat = v4l2PixFmtRGB24, stride = 3\<rparr>
          [Fetch (Dequeued 0 3 [[255, 0, 0]] True) False] initial))))
   \<and> len (Data \<lparr>Data = [82, 90, 240], Width = 1, Height = 1\<rparr>) = 1 * 1 * 3"
proof -
  have "cycle \<lparr>frameW = 1, frameH = 1, pixelFormat = v4l2PixFmtRGB24, stride = 3\<rparr>
      (Dequeued 0 3 [[255, 0, 0]] True) False initial
    = Continue (initial\<lparr>misses := 0,
        frames := push \<lparr>Data = [82, 90, 240], Width = 1, Height = 1\<rparr> (frames initial)\<rparr>)"
    by (simp add: cycle_def red_frame sendFrame_eq len_def slice_def cifWidth_def cifHeight_def)
  then have "\<lparr>Data = [82, 90, 240], Width = 1, Height = 1\<rparr>
     \<in> set (sent (frames (final (run \<lparr>frameW = 1, frameH = 1, pixelFormat = v4l2PixFmtRGB24, stride = 3\<rparr>
          [Fetch (Dequeued 0 3 [[255, 0, 0]] True) False] initial))))"
    by (simp add: push_def initial_def)
  then show ?thesis
    using delivered_frames_canonical [of "\<lparr>frameW = 1, frameH = 1, pixelFormat = v4l2PixFmtRGB24, stride = 3\<rparr>"
        "[Fetch (Dequeued 0 3 [[255, 0, 0]] True) False]"]
    by (simp add: len_def)
qed

lemma makeBlack_loop_fill:
  "len buf = size' \<Longrightarrow> 0 \<le> i \<Longrightarrow> i \<le> size' \<Longrightarrow> 3 dvd i \<Longrightarrow> 3 dvd size' \<Longrightarrow> size' \<le> 2 ^ 63
    \<Longrightarrow> makeBlack_loop buf size' i = Ret (take (nat i) buf @ neutralFill (nat ((size' - i) div 3)))"
proof (induction "nat (size' - i)" arbitrary: i buf rule: less_induct)
  case less
  show ?case
  proof (cases "i < size'")
    case False
    then have "i = size'" using less.prems by simp
    then show ?thesis using less.prems
      by (subst makeBlack_loop.simps) (simp add: neutralFill_def len_def)
  next
    case True
    have "3 dvd (size' - i)" using less.prems by (simp add: dvd_diff)
    then obtain k where k: "size' - i = 3 * k" by (auto simp: dvd_def)
    then have kpos: "1 \<le> k" using True by simp
    have i3: "i + 3 \<le> size'" using k kpos by simp
    define buf' where "buf' = buf[nat i := 16, Suc (nat i) := 128, Suc (Suc (nat i)) := 128]"
    have st: "store3 buf i 16 128 128 = Ret buf'"
      using less.prems i3 by (simp add: store3_eq buf'_def)
    have lb: "len buf' = size'" using less.prems by (simp add: buf'_def len_def)
    have IH: "makeBlack_loop buf' size' (i + 3)
        = Ret (take (nat (i + 3)) buf' @ neutralFill (nat ((size' - (i + 3)) div 3)))"
      using lb less.prems i3 True by (intro less.hyps) auto
    have tk: "take (nat (i + 3)) buf' = take (nat i) buf @ [16, 128, 128]"
    proof -
      have "nat i + 2 < length buf" using less.prems i3 by (simp add: len_def)
      then have "take (nat i + 3) buf' = take (nat i) buf @ [16, 128, 128]"
        unfolding buf'_def by (rule take3_update)
      moreover have "nat (i + 3) = nat i + 3" using less.prems by (simp add: nat_add_distrib)
      ultimately show ?thesis by simp
    qed
    have nf: "neutralFill (nat ((size' - i) div 3))
        = [16, 128, 128] @ neutralFill (nat ((size' - (i + 3)) div 3))"
    proof -
      have a: "(size' - i) div 3 = k" using k by simp
      have b: "(size' - (i + 3)) div 3 = k - 1" using k by simp
      have "nat k = Suc (nat (k - 1))" using kpos by simp
      then show ?thesis using a b neutralFill_Suc by simp
    qed
    show ?thesis
      using True st IH tk nf by (subst makeBlack_loop.simps) simp
  qed
qed

lemma makeBlack_ok:
  assumes "0 < outW cfg" "0 < outH cfg" "outW cfg * outH cfg * 3 \<le> maxAlloc"
  shows "makeBlack cfg = Ret (Some (neutralFill (nat (outW cfg * outH cfg))))"
proof -
  define n where "n = outW cfg * outH cfg * 3"
  have pos: "0 < outW cfg * outH cfg" using assms by simp
  then have npos: "0 < n" by (simp add: n_def)
  have nle: "n \<le> maxAlloc" using assms by (simp add: n_def)
  then have nlt: "n < 2 ^ 63" by (simp add: maxAlloc_def)
  have e: "i64 n = n" using npos nlt by (simp add: i64_id)
  have mk: "make_bytes n = Ret (replicate (nat n) 0)"
    using npos nle by (simp add: make_bytes_def)
  have "makeBlack_loop (replicate (nat n) 0) n 0
      = Ret (take (nat 0) (replicate (nat n) 0) @ neutralFill (nat ((n - 0) div 3)))"
    using npos nlt by (intro makeBlack_loop_fill) (auto simp add: n_def)
  moreover have "n div 3 = outW cfg * outH cfg" by (simp add: n_def)
  ultimately show ?thesis
    using npos e mk by (simp add: makeBlack_def Let_def n_def [symmetric])
qed

lemma out_bounds:
  assumes "0 < frameW cfg" "0 < frameH cfg"
  shows "0 < outW cfg" "0 < outH cfg" "outW cfg * outH cfg * 3 \<le> maxAlloc"
proof -
  show p: "0 < outW cfg" "0 < outH cfg"
    using assms by (auto simp add: outW_def outH_def cifWidth_def cifHeight_def)
  have "outW cfg \<le> 352" "outH cfg \<le> 288"
    by (auto simp add: outW_def outH_def cifWidth_def cifHeight_def)
  then have "outW cfg * outH cfg \<le> 352 * 288" using p by (intro mult_mono) auto
  then show "outW cfg * outH cfg * 3 \<le> maxAlloc" by (simp add: maxAlloc_def)
qed

lemma sendBlack_ok:
  "0 < frameW cfg \<Longrightarrow> 0 < frameH cfg
    \<Longrightarrow> sendBlack cfg race ch =
          (if race \<and> slot ch \<noteq> None then Ret (None, ch\<lparr>slot := None\<rparr>)
           else Ret (Some True, push (blackFrame cfg) ch))"
  using out_bounds [of cfg]
  by (simp add: sendBlack_def makeBlack_ok sendFrame_eq blackFrame_def)

text \<open>
  A miss without a receive of the consumer inside the push: the counter is increased,
  and the neutral-fill frame is pushed when the counter has reached \<open>dropThreshold\<close>.
\<close>

lemma handleDrop_eq:
  "0 < frameW cfg \<Longrightarrow> 0 < frameH cfg \<Longrightarrow>
   handleDrop cfg longWait shortWait False s =
     Continue (s\<lparr>misses := i64 (misses s + 1),
                 frames := (if dropThreshold \<le> i64 (misses s + 1)
                            then push (blackFrame cfg) (frames s) else frames s),
                 slept := slept s + (if dropThreshold \<le> i64 (misses s + 1)
                            then longWait else shortWait)\<rparr>)"
  by (simp add: handleDrop_def Let_def sendBlack_ok)

text \<open>
  A miss at or above the threshold, on a full slot, with a receive of the consumer
  inside the push: the producer waits, and no frame is pushed.
\<close>

lemma handleDrop_waits:
  "0 < frameW cfg \<Longrightarrow> 0 < frameH cfg \<Longrightarrow> dropThreshold \<le> i64 (misses s + 1)
    \<Longrightarrow> slot (frames s) \<noteq> None \<Longrightarrow>
   handleDrop cfg longWait shortWait True s =
     Blocked (s\<lparr>misses := i64 (misses s + 1), frames := (frames s)\<lparr>slot := None\<rparr>\<rparr>)"
  by (simp add: handleDrop_def Let_def sendBlack_ok)

lemma run_append:
  "run cfg (xs @ ys) s = (case run cfg xs s of Continue s' \<Rightarrow> run cfg ys s' | other \<Rightarrow> other)"
proof (induction xs arbitrary: s)
  case Nil
  then show ?case by simp
next
  case (Cons e xs)
  show ?case
  proof (cases e)
    case Receive
    then show ?thesis using Cons.IH by simp
  next
    case (Fetch ev race)
    then show ?thesis using Cons.IH by (cases "cycle cfg ev race s") simp_all
  qed
qed

text \<open>
  Failed fetches in a row, with no receive of the consumer inside a push: \<open>n\<close> of them
  add \<open>n\<close> to the counter, and each cycle that brings the counter to 30 or more pushes
  one neutral-fill frame of the output size.
\<close>

lemma misses_run:
  assumes pos: "0 < frameW cfg" "0 < frameH cfg"
  shows "misses s = int m \<Longrightarrow> int m + int n < 2 ^ 63 \<Longrightarrow>
     \<exists>s'. run cfg (replicate n (Fetch (DQBufErr False) False)) s = Continue s'
        \<and> misses s' = int (m + n)
        \<and> sent (frames s') = sent (frames s) @ replicate ((m + n - 29) - (m - 29)) (blackFrame cfg)
        \<and> (m + n \<ge> 30 \<and> 0 < n \<longrightarrow> slot (frames s') = Some (blackFrame cfg))"
proof (induction n arbitrary: s m)
  case 0
  then show ?case by simp
next
  case (Suc n)
  have "int m + 1 < 2 ^ 63" using Suc.prems(2) by linarith
  then have e: "i64 (misses s + 1) = misses s + 1" using Suc.prems(1) by (simp add: i64_id)
  define s1 where "s1 = s\<lparr>misses := misses s + 1,
      frames := (if dropThreshold \<le> misses s + 1 then push (blackFrame cfg) (frames s) else frames s),
      slept := slept s + (if dropThreshold \<le> misses s + 1 then 33 else 10)\<rparr>"
  have c: "cycle cfg (DQBufErr False) False s = Continue s1"
    using pos by (simp add: cycle_def handleDrop_eq s1_def e)
  have m1: "misses s1 = int (Suc m)" using Suc.prems by (simp add: s1_def)
  have lt: "int (Suc m) + int n < 2 ^ 63" using Suc.prems(2) by simp
  from Suc.IH [OF m1 lt] obtain s' where
    r: "run cfg (replicate n (Fetch (DQBufErr False) False)) s1 = Continue s'"
    and ms: "misses s' = int (Suc m + n)"
    and st: "sent (frames s') = sent (frames s1) @ replicate ((Suc m + n - 29) - (Suc m - 29)) (blackFrame cfg)"
    and sl: "Suc m + n \<ge> 30 \<and> 0 < n \<longrightarrow> slot (frames s') = Some (blackFrame cfg)"
    by blast
  have s1sent: "sent (frames s1) = sent (frames s) @ replicate (if 29 \<le> m then 1 else 0) (blackFrame cfg)"
    using Suc.prems by (auto simp add: s1_def push_def dropThreshold_def)
  have cnt: "(if 29 \<le> m then 1 else 0) + ((Suc m + n - 29) - (Suc m - 29)) = (m + Suc n - 29) - (m - 29)"
    by auto
  have "sent (frames s') = sent (frames s) @ replicate ((m + Suc n - 29) - (m - 29)) (blackFrame cfg)"
    using st s1sent cnt by (simp add: replicate_add [symmetric] del: replicate_Suc)
  moreover have "m + Suc n \<ge> 30 \<and> 0 < Suc n \<longrightarrow> slot (frames s') = Some (blackFrame cfg)"
  proof (cases n)
    case 0
    then have "s' = s1" using r by simp
    then show ?thesis using 0 Suc.prems by (auto simp add: s1_def push_def dropThreshold_def)
  next
    case (Suc k)
    then show ?thesis using sl by simp
  qed
  ultimately show ?case using c r ms by simp
qed

text \<open>
  C5: the counter of consecutive misses is set to zero on a delivery, and from the
  thirtieth consecutive miss on, every miss cycle pushes the neutral-fill frame of the
  output size.  The code does not push it on every such cycle.  In a session of 1x1
  frames, thirty failed fetches in a row bring the counter to 30, and the thirtieth
  pushes the neutral-fill frame into the empty slot.  On the next failed fetch the
  counter is 31 and the producer pushes again: its send finds the slot full; when the
  consumer receives at this moment, the producer's own receive waits on the empty
  channel for ever.  The thirty-first miss cycle has pushed nothing (the channel has
  carried one frame, and the slot is empty), and no later cycle takes place, whatever
  happens afterwards (\<open>evs\<close>).
\<close>

theorem miss_push_blocks:
  "\<exists>s'. run \<lparr>frameW = 1, frameH = 1, pixelFormat = v4l2PixFmtRGB24, stride = 3\<rparr>
           (replicate 30 (Fetch (DQBufErr False) False) @ Fetch (DQBufErr False) True # evs)
           initial = Blocked s'
      \<and> misses s' = 31
      \<and> sent (frames s') = [\<lparr>Data = [16, 128, 128], Width = 1, Height = 1\<rparr>]
      \<and> slot (frames s') = None"
proof -
  define cfg where "cfg = \<lparr>frameW = 1, frameH = 1, pixelFormat = v4l2PixFmtRGB24, stride = 3\<rparr>"
  have pos: "0 < frameW cfg" "0 < frameH cfg" by (simp_all add: cfg_def)
  have b: "blackFrame cfg = \<lparr>Data = [16, 128, 128], Width = 1, Height = 1\<rparr>"
    by (simp add: blackFrame_def cfg_def outW_def outH_def cifWidth_def cifHeight_def
        neutralFill_def)
  have "misses initial = int 0" by (simp add: initial_def)
  from misses_run [OF pos this, of 30]
  obtain s1 where r: "run cfg (replicate 30 (Fetch (DQBufErr False) False)) initial = Continue s1"
    and m: "misses s1 = 30"
    and st: "sent (frames s1) = [blackFrame cfg]"
    and sl: "slot (frames s1) = Some (blackFrame cfg)"
    by (auto simp add: initial_def)
  have e: "i64 (misses s1 + 1) = 31" using m by (simp add: i64_def)
  have c: "cycle cfg (DQBufErr False) True s1
      = Blocked (s1\<lparr>misses := 31, frames := (frames s1)\<lparr>slot := None\<rparr>\<rparr>)"
    using handleDrop_waits [OF pos, of s1 33 10] sl e
    by (simp add: cycle_def dropThreshold_def)
  have "run cfg (replicate 30 (Fetch (DQBufErr False) False) @ Fetch (DQBufErr False) True # evs)
      initial = Blocked (s1\<lparr>misses := 31, frames := (frames s1)\<lparr>slot := None\<rparr>\<rparr>)"
    by (simp add: run_append r c)
  then show ?thesis using st b unfolding cfg_def [symmetric] by simp
qed

section \<open>Saving a frame\<close>

lemma pixel_index_bound:
  assumes "0 \<le> (x::int)" "x < W" "0 \<le> (y::int)" "y < H"
  shows "0 \<le> y * W + x \<and> y * W + x + 1 \<le> W * H"
proof -
  have "y * W \<le> (H - 1) * W" using assms by (intro mult_right_mono) auto
  then have "y * W + x + 1 \<le> (H - 1) * W + W" using assms by linarith
  moreover have "(H - 1) * W + W = W * H" by (simp add: algebra_simps)
  moreover have "0 \<le> y * W" using assms by simp
  ultimately show ?thesis using assms by simp
qed

lemma png_cols_ok:
  assumes inv: "len (Data frame) = Width frame * Height frame * 3"
    and fit: "4 * Width frame * Height frame < 2 ^ 63"
    and y: "0 \<le> y" "y < Height frame"
  shows "0 \<le> x \<Longrightarrow> len pix = 4 * Width frame * Height frame
    \<Longrightarrow> \<exists>p. png_cols E frame y x pix = Ret p \<and> len p = len pix"
proof (induction "nat (Width frame - x)" arbitrary: x pix rule: less_induct)
  case less
  show ?case
  proof (cases "x < Width frame")
    case False
    then show ?thesis by (subst png_cols.simps) simp
  next
    case True
    define n where "n = Width frame * Height frame"
    have n4: "4 * n < 2 ^ 63" using fit by (simp add: n_def algebra_simps)
    have ld: "len (Data frame) = n * 3" using inv by (simp add: n_def)
    have lx: "len pix = 4 * n" using less.prems(2) by (simp add: n_def algebra_simps)
    from pixel_index_bound [OF less.prems(1) True y]
    have b: "0 \<le> y * Width frame + x" "y * Width frame + x + 1 \<le> n"
      by (auto simp add: n_def)
    define i where "i = (y * Width frame + x) * 3"
    define di where "di = y * (4 * Width frame) + x * 4"
    have i: "0 \<le> i" "i + 2 < len (Data frame)" using b ld by (auto simp add: i_def)
    have di4: "di = 4 * (y * Width frame + x)" by (simp add: di_def algebra_simps)
    have di: "0 \<le> di" "di + 3 < len pix" using b lx by (auto simp add: di4)
    have lp63: "len pix < 2 ^ 63" "len (Data frame) < 2 ^ 63"
      using n4 lx ld by auto
    have wpos: "0 < Width frame" "0 < Height frame" using True less.prems(1) y by auto
    have "Width frame * 1 \<le> Width frame * Height frame"
      using wpos by (intro mult_left_mono) auto
    then have "Width frame \<le> n" by (simp add: n_def)
    then have w4: "0 \<le> 4 * Width frame" "4 * Width frame < 2 ^ 63" using n4 wpos by auto
    have e1: "i64 ((y * Width frame + x) * 3) = i"
      using i lp63 unfolding i_def by (intro i64_id) auto
    have e2: "i64 (i + 1) = i + 1" "i64 (i + 2) = i + 2"
      using i lp63 by (simp_all add: i64_id)
    have e3: "i64 (4 * Width frame) = 4 * Width frame"
      using w4 by (intro i64_id) auto
    have e4: "i64 (y * (4 * Width frame) + x * 4) = di"
      using di lp63 unfolding di_def by (intro i64_id) auto
    have e5: "i64 (di + 0) = di" "i64 (di + 1) = di + 1" "i64 (di + 2) = di + 2"
      "i64 (di + 3) = di + 3"
      using di lp63 by (simp_all add: i64_id)
    note e = e1 e2 e3 e4 e5
    obtain r g bl where rgb: "ycbcrToRGB E (Data frame ! nat i) (Data frame ! nat (i + 1))
        (Data frame ! nat (i + 2)) = (r, g, bl)"
      by (cases "ycbcrToRGB E (Data frame ! nat i) (Data frame ! nat (i + 1))
        (Data frame ! nat (i + 2))") auto
    define p where "p = pix[nat di := r, nat (di + 1) := g, nat (di + 2) := bl, nat (di + 3) := 0xff]"
    define bd where "bd = bind_res (idx (Data frame) i) (\<lambda>yVal.
              bind_res (idx (Data frame) (i + 1)) (\<lambda>cb.
              bind_res (idx (Data frame) (i + 2)) (\<lambda>cr.
                case ycbcrToRGB E yVal cb cr of
                  (r, g, b) \<Rightarrow>
                    bind_res (store pix di r) (\<lambda>p1.
                    bind_res (store p1 (di + 1) g) (\<lambda>p2.
                    bind_res (store p2 (di + 2) b) (\<lambda>p3.
                    store p3 (di + 3) 0xff))))))"
    have unfold: "png_cols E frame y x pix =
        (case bd of Panic \<Rightarrow> Panic | Ret pix' \<Rightarrow> png_cols E frame y (x + 1) pix')"
      using True by (subst png_cols.simps) (simp only: Let_def bd_def e if_True)
    have body: "bd = Ret p"
      using i di rgb by (simp add: bd_def idx_def store_def p_def)
    have lp: "len p = len pix" by (simp add: p_def)
    have "\<exists>p'. png_cols E frame y (x + 1) p = Ret p' \<and> len p' = len p"
      using True less.prems lp by (intro less.hyps) auto
    then show ?thesis using lp by (simp add: unfold body)
  qed
qed

lemma png_rows_ok:
  assumes inv: "len (Data frame) = Width frame * Height frame * 3"
    and fit: "4 * Width frame * Height frame < 2 ^ 63"
  shows "0 \<le> y \<Longrightarrow> len pix = 4 * Width frame * Height frame
    \<Longrightarrow> \<exists>p. png_rows E frame y pix = Ret p \<and> len p = len pix"
proof (induction "nat (Height frame - y)" arbitrary: y pix rule: less_induct)
  case less
  show ?case
  proof (cases "y < Height frame")
    case False
    then show ?thesis by (subst png_rows.simps) simp
  next
    case True
    obtain p where p: "png_cols E frame y 0 pix = Ret p" "len p = len pix"
      using png_cols_ok [OF inv fit less.prems(1) True, of 0 pix E] less.prems by auto
    have "\<exists>p'. png_rows E frame (y + 1) p = Ret p' \<and> len p' = len p"
      using True less.prems p by (intro less.hyps) auto
    then show ?thesis using True p by (subst png_rows.simps) simp
  qed
qed

text \<open>
  For a frame with a width or height that is not positive, or with data of another
  length than \<open>Width * Height * 3\<close> as Go computes the product, \<^verbatim>\<open>SaveFramePNG\<close> returns
  its error and leaves the file system as it is.  For every other frame it goes on:
  when the image buffer of \<open>4 * Width * Height\<close> bytes can be allocated, it builds the
  image without a panic, creates the file and encodes; otherwise \<^verbatim>\<open>image.NewNRGBA\<close>
  panics.
\<close>

lemma save_frame_cases:
  "if Width frame \<le> 0 \<or> Height frame \<le> 0
        \<or> len (Data frame) \<noteq> i64 (Width frame * Height frame * 3)
   then SaveFramePNG E frame path fs = Ret (Some InvalidFrameData, fs)
   else if 4 * Width frame * Height frame \<le> maxAlloc
   then (\<exists>pix. len pix = 4 * Width frame * Height frame
          \<and> SaveFramePNG E frame path fs =
              (if \<not> osCreate E path then Ret (Some CreateError, fs)
               else (case pngEncode E (Width frame) (Height frame) pix of
                       (bytes, ok) \<Rightarrow>
                         Ret (if ok then None else Some EncodeError, fs(path \<mapsto> bytes)))))
   else SaveFramePNG E frame path fs = Panic"
proof (cases "Width frame \<le> 0 \<or> Height frame \<le> 0
        \<or> len (Data frame) \<noteq> i64 (Width frame * Height frame * 3)")
  case True
  then show ?thesis by (simp add: SaveFramePNG_def)
next
  case False
  then have pos: "0 < Width frame" "0 < Height frame" by auto
  show ?thesis
  proof (cases "4 * Width frame * Height frame \<le> maxAlloc")
    case huge: False
    then show ?thesis using False by (simp add: SaveFramePNG_def newNRGBA_def make_bytes_def)
  next
    case small: True
    then have fit: "4 * Width frame * Height frame < 2 ^ 63" by (simp add: maxAlloc_def)
    define n where "n = Width frame * Height frame"
    have npos: "0 < n" using pos by (simp add: n_def)
    have "4 * n < 2 ^ 63" using fit by (simp add: n_def algebra_simps)
    then have "i64 (n * 3) = n * 3" using npos by (intro i64_id) auto
    then have inv: "len (Data frame) = Width frame * Height frame * 3"
      using False by (simp add: n_def)
    define pix0 where "pix0 = replicate (nat (4 * Width frame * Height frame)) (0::byte)"
    have "0 \<le> 4 * n" using npos by simp
    then have nn: "0 \<le> 4 * Width frame * Height frame" by (simp add: n_def algebra_simps)
    then have l0: "len pix0 = 4 * Width frame * Height frame"
      unfolding pix0_def len_replicate by (rule nat_0_le)
    have a: "\<not> (Width frame < 0 \<or> Height frame < 0 \<or> 4 * Width frame * Height frame \<ge> 2 ^ 63)"
      using pos fit by linarith
    have b: "\<not> (4 * Width frame * Height frame < 0 \<or> 4 * Width frame * Height frame > maxAlloc)"
      using nn small by linarith
    have new: "newNRGBA (Width frame) (Height frame) = Ret pix0"
      unfolding newNRGBA_def make_bytes_def pix0_def using a b by (simp only: if_False)
    obtain p where p: "png_rows E frame 0 pix0 = Ret p" "len p = len pix0"
      using png_rows_ok [OF inv fit, of 0 pix0 E] l0 by auto
    have "SaveFramePNG E frame path fs =
              (if \<not> osCreate E path then Ret (Some CreateError, fs)
               else (case pngEncode E (Width frame) (Height frame) p of
                       (bytes, ok) \<Rightarrow>
                         Ret (if ok then None else Some EncodeError, fs(path \<mapsto> bytes))))"
      using False p new by (simp add: SaveFramePNG_def)
    then show ?thesis using False small p l0 by auto
  qed
qed

text \<open>
  C10: a frame that violates the canonical length invariant, or has a width or height
  that is not positive, is rejected with an error, and no file is created.  The code
  does not reject every such frame.  The frame with no data, width \<open>2^32\<close> and height
  \<open>2^32\<close> violates the invariant: its data should have \<open>3 * 2^64\<close> bytes.  The guard
  computes \<^verbatim>\<open>frame.Width*frame.Height*3\<close> in \<^verbatim>\<open>int\<close>, where the product wraps around to \<open>0\<close>,
  the length of the data; the frame passes, and \<^verbatim>\<open>image.NewNRGBA\<close> panics instead of the
  error being returned.  This holds for every environment, path and file system.
\<close>

theorem save_overflow_panics:
  "SaveFramePNG E \<lparr>Data = [], Width = 2 ^ 32, Height = 2 ^ 32\<rparr> path fs = Panic
   \<and> len (Data \<lparr>Data = [], Width = 2 ^ 32, Height = 2 ^ 32\<rparr>)
       \<noteq> Width \<lparr>Data = [], Width = 2 ^ 32, Height = 2 ^ 32\<rparr>
          * Height \<lparr>Data = [], Width = 2 ^ 32, Height = 2 ^ 32\<rparr> * 3"
  by (simp add: SaveFramePNG_def newNRGBA_def len_def i64_def)

end
